theory Spec2Isabelle
  imports Main "HOL-Library.Word"
begin

unbundle bit_operations_syntax

section \<open>Pipeline hazard automaton generator (genautomata.c)\<close>

text \<open>
  A shallow embedding of the parts of \<^verbatim>\<open>gcc/genautomata.c\<close> that build and encode the
  pipeline hazard recognizer.  Pointers to heap nodes become indices into lists,
  intrusive linked lists become lists, \<^verbatim>\<open>abort ()\<close> becomes the error value
  \<open>Inl Abort\<close>.
\<close>

datatype error = Abort

subsection \<open>Bit strings\<close>

text \<open>
  A reservation set is an array of \<^verbatim>\<open>set_el_t\<close>; the macros \<^verbatim>\<open>SET_BIT\<close> and
  \<^verbatim>\<open>TEST_BIT\<close> address it as an array of chars, so the model keeps the chars.
  The element-wise \<^verbatim>\<open>&\<close> and \<^verbatim>\<open>|\<close> of the source act on every char alike.
\<close>

type_synonym reserv_sets = "8 word list"

definition CHAR_BIT :: nat where
  "CHAR_BIT = 8"

definition SET_BIT :: "reserv_sets \<Rightarrow> nat \<Rightarrow> reserv_sets" where
  "SET_BIT bitstring bitno =
     bitstring[bitno div CHAR_BIT :=
       (bitstring ! (bitno div CHAR_BIT)) OR push_bit (bitno mod CHAR_BIT) 1]"

definition TEST_BIT :: "reserv_sets \<Rightarrow> nat \<Rightarrow> bool" where
  "TEST_BIT bitstring bitno =
     bit (bitstring ! (bitno div CHAR_BIT)) (bitno mod CHAR_BIT)"

subsection \<open>Declarations and global data\<close>

text \<open>
  \<^verbatim>\<open>struct unit_decl\<close>.  Pointers to other unit declarations are unit numbers,
  a pattern (\<^verbatim>\<open>struct pattern_set_el\<close>) is the list of its units, and each of the
  five lists hanging off a unit is a list.  A pointer to an automaton declaration
  is its index, \<open>None\<close> for \<^verbatim>\<open>NULL\<close>.
\<close>

record unit_decl =
  name :: string
  automaton_name :: "string option"
  query_p :: bool
  unit_num :: nat
  automaton_decl :: "nat option"
  max_occ_cycle_num :: int
  min_occ_cycle_num :: int
  excl_list :: "nat list"
  presence_list :: "nat list list"
  final_presence_list :: "nat list list"
  absence_list :: "nat list list"
  final_absence_list :: "nat list list"
  query_num :: nat
  in_set_p :: bool

text \<open>
  The file-level variables read by the state code: \<^verbatim>\<open>description->units_num\<close>,
  \<^verbatim>\<open>description->query_units_num\<close>,
  \<^verbatim>\<open>max_cycles_num\<close>, \<^verbatim>\<open>units_array\<close>, the size of \<^verbatim>\<open>set_el_t\<close> in chars
  (it is \<^verbatim>\<open>unsigned HOST_WIDE_INT\<close>, whose size depends on the host), and the
  per-unit tables of exclusion sets and presence/absence patterns.
\<close>

record globals =
  units_num :: nat
  query_units_num :: nat
  max_cycles_num :: nat
  sizeof_set_el :: nat
  units_array :: "unit_decl list"
  unit_excl_set_table :: "reserv_sets list"
  unit_presence_set_table :: "reserv_sets list list"
  unit_final_presence_set_table :: "reserv_sets list list"
  unit_absence_set_table :: "reserv_sets list list"
  unit_final_absence_set_table :: "reserv_sets list list"

definition els_in_cycle_reserv :: "globals \<Rightarrow> nat" where
  "els_in_cycle_reserv g =
     (units_num g + sizeof_set_el g * CHAR_BIT - 1) div (sizeof_set_el g * CHAR_BIT)"

definition els_in_reservs :: "globals \<Rightarrow> nat" where
  "els_in_reservs g = els_in_cycle_reserv g * max_cycles_num g"

text \<open>Chars in the reservation of one cycle.\<close>

definition chars_num :: "globals \<Rightarrow> nat" where
  "chars_num g = els_in_cycle_reserv g * sizeof_set_el g"

definition alloc_empty_reserv_sets :: "globals \<Rightarrow> reserv_sets" where
  "alloc_empty_reserv_sets g = replicate (els_in_reservs g * sizeof_set_el g) 0"

definition set_unit_reserv :: "globals \<Rightarrow> reserv_sets \<Rightarrow> nat \<Rightarrow> nat \<Rightarrow> error + reserv_sets" where
  "set_unit_reserv g reservs cycle_num un =
     (if cycle_num \<ge> max_cycles_num g then Inl Abort
      else Inr (SET_BIT reservs
             (cycle_num * els_in_cycle_reserv g * sizeof_set_el g * CHAR_BIT + un)))"

definition test_unit_reserv :: "globals \<Rightarrow> reserv_sets \<Rightarrow> nat \<Rightarrow> nat \<Rightarrow> error + bool" where
  "test_unit_reserv g reservs cycle_num un =
     (if cycle_num \<ge> max_cycles_num g then Inl Abort
      else Inr (TEST_BIT reservs
             (cycle_num * els_in_cycle_reserv g * sizeof_set_el g * CHAR_BIT + un)))"

definition reserv_sets_or :: "reserv_sets \<Rightarrow> reserv_sets \<Rightarrow> reserv_sets" where
  "reserv_sets_or operand_1 operand_2 = map2 (OR) operand_1 operand_2"

definition reserv_sets_and :: "reserv_sets \<Rightarrow> reserv_sets \<Rightarrow> reserv_sets" where
  "reserv_sets_and operand_1 operand_2 = map2 (AND) operand_1 operand_2"

text \<open>
  \<^verbatim>\<open>reserv_sets_shift\<close> copies elements \<^verbatim>\<open>els_in_cycle_reserv ..\<close> of the operand to
  the front of the result and leaves the last cycle of the result as it was.
\<close>

definition reserv_sets_shift :: "globals \<Rightarrow> reserv_sets \<Rightarrow> reserv_sets \<Rightarrow> reserv_sets" where
  "reserv_sets_shift g result operand =
     drop (chars_num g) operand @ drop (length operand - chars_num g) result"

subsection \<open>The mask of reservations that matter\<close>

text \<open>
  \<^verbatim>\<open>struct ainsn\<close> and \<^verbatim>\<open>struct automaton\<close>.  The automaton's instructions, linked
  through \<^verbatim>\<open>next_ainsn\<close>, are the list \<open>ainsn_list\<close>; \<open>insn_reserv_decl\<close> is the index
  of the instruction's declaration; \<open>alt_states\<close> holds the states of the alt states
  linked through \<^verbatim>\<open>next_alt_state\<close>, \<open>sorted_alt_states\<close> those linked through
  \<^verbatim>\<open>next_sorted_alt_state\<close>.
\<close>

record ainsn =
  insn_reserv_decl :: nat
  alt_states :: "nat list"
  sorted_alt_states :: "nat list"
  first_insn_with_same_reservs :: bool
  arc_exists_p :: bool
  first_ainsn_with_given_equialence_num :: bool
  insn_equiv_class_num :: nat

record automaton =
  ainsn_list :: "ainsn list"
  corresponding_automaton_decl :: "nat option"
  start_state :: nat
  insn_equiv_classes_num :: nat
  achieved_states_num :: nat

fun form_reservs_matter_units ::
  "globals \<Rightarrow> automaton \<Rightarrow> nat \<Rightarrow> nat list \<Rightarrow> reserv_sets \<Rightarrow> error + reserv_sets" where
  "form_reservs_matter_units g a cycle [] reservs_matter = Inr reservs_matter"
| "form_reservs_matter_units g a cycle (un # uns) reservs_matter =
     (if automaton_decl (units_array g ! un) = corresponding_automaton_decl a
         \<and> (int cycle \<ge> min_occ_cycle_num (units_array g ! un)
            \<or> query_p (units_array g ! un)
            \<or> in_set_p (units_array g ! un))
      then (case set_unit_reserv g reservs_matter cycle un of
              Inl e \<Rightarrow> Inl e
            | Inr r \<Rightarrow> form_reservs_matter_units g a cycle uns r)
      else form_reservs_matter_units g a cycle uns reservs_matter)"

fun form_reservs_matter_cycles ::
  "globals \<Rightarrow> automaton \<Rightarrow> nat list \<Rightarrow> reserv_sets \<Rightarrow> error + reserv_sets" where
  "form_reservs_matter_cycles g a [] reservs_matter = Inr reservs_matter"
| "form_reservs_matter_cycles g a (cycle # cycles) reservs_matter =
     (case form_reservs_matter_units g a cycle [0 ..< units_num g] reservs_matter of
        Inl e \<Rightarrow> Inl e
      | Inr r \<Rightarrow> form_reservs_matter_cycles g a cycles r)"

definition form_reservs_matter :: "globals \<Rightarrow> automaton \<Rightarrow> error + reserv_sets" where
  "form_reservs_matter g a =
     form_reservs_matter_cycles g a [0 ..< max_cycles_num g] (alloc_empty_reserv_sets g)"

text \<open>
  The reservation computed by \<^verbatim>\<open>states_union\<close>: the union of both states'
  reservations, masked by \<^verbatim>\<open>reservs\<close>.
\<close>

definition states_union_reservs :: "reserv_sets \<Rightarrow> reserv_sets \<Rightarrow> reserv_sets \<Rightarrow> reserv_sets" where
  "states_union_reservs reservs1 reservs2 reservs =
     reserv_sets_and (reserv_sets_or reservs1 reservs2) reservs"

text \<open>
  A description with two units \<open>a\<close> and \<open>u\<close> and one instruction reserving
  \<^verbatim>\<open>a, u\<close>: unit \<open>u\<close> first occurs on cycle 1.
\<close>

definition two_cycle_units :: "unit_decl list" where
  "two_cycle_units =
     [\<lparr>name = ''a'', automaton_name = None, query_p = False, unit_num = 0,
       automaton_decl = None, max_occ_cycle_num = 0, min_occ_cycle_num = 0,
       excl_list = [], presence_list = [], final_presence_list = [], absence_list = [],
       final_absence_list = [], query_num = 0, in_set_p = False\<rparr>,
      \<lparr>name = ''u'', automaton_name = None, query_p = False, unit_num = 1,
       automaton_decl = None, max_occ_cycle_num = 1, min_occ_cycle_num = 1,
       excl_list = [], presence_list = [], final_presence_list = [], absence_list = [],
       final_absence_list = [], query_num = 0, in_set_p = False\<rparr>]"

definition two_cycle_globals :: globals where
  "two_cycle_globals =
     \<lparr>units_num = 2, query_units_num = 0, max_cycles_num = 2, sizeof_set_el = 4,
      units_array = two_cycle_units,
      unit_excl_set_table = [[0, 0, 0, 0], [0, 0, 0, 0]],
      unit_presence_set_table = [[], []],
      unit_final_presence_set_table = [[], []],
      unit_absence_set_table = [[], []],
      unit_final_absence_set_table = [[], []]\<rparr>"

definition anonymous_automaton :: automaton where
  "anonymous_automaton =
     \<lparr>ainsn_list = [], corresponding_automaton_decl = None, start_state = 0,
      insn_equiv_classes_num = 0, achieved_states_num = 0\<rparr>"

text \<open>Bits per cycle, and the condition under which the loop sets a bit.\<close>

definition cycle_bits :: "globals \<Rightarrow> nat" where
  "cycle_bits g = els_in_cycle_reserv g * sizeof_set_el g * CHAR_BIT"

definition unit_matters :: "globals \<Rightarrow> automaton \<Rightarrow> nat \<Rightarrow> nat \<Rightarrow> bool" where
  "unit_matters g a cycle un \<longleftrightarrow>
     automaton_decl (units_array g ! un) = corresponding_automaton_decl a
     \<and> (int cycle \<ge> min_occ_cycle_num (units_array g ! un)
        \<or> query_p (units_array g ! un)
        \<or> in_set_p (units_array g ! un))"

subsection \<open>States and arcs\<close>

text \<open>
  \<^verbatim>\<open>struct arc\<close> and \<^verbatim>\<open>struct state\<close>.  State nodes live in a heap (a list) and a
  \<^verbatim>\<open>state_t\<close> is an index into it.  The out arcs of a state, linked through
  \<^verbatim>\<open>next_out_arc\<close> in the source, are the list \<open>first_out_arc\<close>; an arc's \<open>insn\<close>
  is the position of the \<^verbatim>\<open>ainsn\<close> in the automaton's list.  The list
  \<open>component_states\<close> holds the states of the \<^verbatim>\<open>alt_state\<close> nodes linked through
  \<^verbatim>\<open>next_sorted_alt_state\<close>; it is empty for \<^verbatim>\<open>NULL\<close>.
\<close>

record arc =
  to_state :: nat
  insn :: nat
  state_alts :: int

record state =
  reservs :: reserv_sets
  unique_num :: nat
  first_out_arc :: "arc list"
  it_was_placed_in_stack_for_NDFA_forming :: bool
  it_was_placed_in_stack_for_DFA_forming :: bool
  component_states :: "nat list"
  pass_num :: int
  equiv_class_num_1 :: int
  equiv_class_num_2 :: int
  equiv_class_state :: nat
  order_state_num :: nat

text \<open>
  \<^verbatim>\<open>uniq_sort_alt_states\<close>: \<^verbatim>\<open>qsort\<close> by \<^verbatim>\<open>unique_num\<close>, then drop every alt state
  whose state is the state of the previous one kept.
\<close>

definition uniq_sort_alt_states :: "state list \<Rightarrow> nat list \<Rightarrow> nat list" where
  "uniq_sort_alt_states sts alt_states_list =
     remdups_adj (sort_key (\<lambda>s. unique_num (sts ! s)) alt_states_list)"

definition first_cycle_unit_presence ::
  "globals \<Rightarrow> state list \<Rightarrow> nat \<Rightarrow> nat \<Rightarrow> error + bool" where
  "first_cycle_unit_presence g sts st un =
     (if component_states (sts ! st) = []
      then test_unit_reserv g (reservs (sts ! st)) 0 un
      else test_unit_reserv g (reservs (sts ! hd (component_states (sts ! st)))) 0 un)"


text \<open>
  \<^verbatim>\<open>output_reserved_units_table\<close>: the loop over the units for one state, and the
  loop over the states of \<^verbatim>\<open>output_states_vect\<close>.
\<close>

definition state_byte_size :: "globals \<Rightarrow> nat" where
  "state_byte_size g = (query_units_num g + 7) div 8"

fun reserved_units_of_state ::
  "globals \<Rightarrow> state list \<Rightarrow> nat \<Rightarrow> nat list \<Rightarrow> int list \<Rightarrow> error + int list" where
  "reserved_units_of_state g sts st [] reserved_units_table = Inr reserved_units_table"
| "reserved_units_of_state g sts st (i # uns) reserved_units_table =
     (if query_p (units_array g ! i)
      then (case first_cycle_unit_presence g sts st i of
              Inl e \<Rightarrow> Inl e
            | Inr presence_p \<Rightarrow>
               if presence_p
               then reserved_units_of_state g sts st uns
                      (let k = order_state_num (sts ! st) * state_byte_size g
                               + query_num (units_array g ! i) div 8
                       in reserved_units_table
                            [k := reserved_units_table ! k
                                  + 2 ^ (query_num (units_array g ! i) mod 8)])
               else reserved_units_of_state g sts st uns reserved_units_table)
      else reserved_units_of_state g sts st uns reserved_units_table)"

fun reserved_units_of_states ::
  "globals \<Rightarrow> state list \<Rightarrow> nat list \<Rightarrow> int list \<Rightarrow> error + int list" where
  "reserved_units_of_states g sts [] reserved_units_table = Inr reserved_units_table"
| "reserved_units_of_states g sts (st # output_states) reserved_units_table =
     (case reserved_units_of_state g sts st [0 ..< units_num g] reserved_units_table of
        Inl e \<Rightarrow> Inl e
      | Inr t \<Rightarrow> reserved_units_of_states g sts output_states t)"

definition output_reserved_units_table ::
  "globals \<Rightarrow> state list \<Rightarrow> nat list \<Rightarrow> error + int list" where
  "output_reserved_units_table g sts output_states_vect =
     reserved_units_of_states g sts output_states_vect
       (replicate (length output_states_vect * state_byte_size g) 0)"




subsection \<open>Presence and absence sets in the checker\<close>

text \<open>
  Calls of \<^verbatim>\<open>error\<close> and \<^verbatim>\<open>warning\<close> are recorded with their format string (without
  the quotes around \<^verbatim>\<open>%s\<close>) and string arguments.
\<close>

datatype diagnostic = Error string "string list" | Warning string "string list"

text \<open>
  The state \<^verbatim>\<open>add_presence_absence\<close> works on: the unit declarations (a
  \<^verbatim>\<open>struct unit_decl *\<close> is an index into the list) and the diagnostics so far.
\<close>

type_synonym checker_state = "unit_decl list \<times> diagnostic list"

text \<open>The loop over \<^verbatim>\<open>dst->unit_decl->excl_list\<close> for a presence pattern.\<close>

fun check_excl_list ::
  "bool \<Rightarrow> unit_decl list \<Rightarrow> nat \<Rightarrow> nat \<Rightarrow> nat list \<Rightarrow> nat list
     \<Rightarrow> diagnostic list \<times> bool \<Rightarrow> diagnostic list \<times> bool" where
  "check_excl_list w_flag units dst un pat [] (diags, no_error_flag) = (diags, no_error_flag)"
| "check_excl_list w_flag units dst un pat (curr_excl_el # els) (diags, no_error_flag) =
     (if un = curr_excl_el \<and> length pat = 1
      then (if \<not> w_flag
            then check_excl_list w_flag units dst un pat els
                   (diags @ [Error ''unit %s excludes and requires presence of %s''
                               [name (units ! dst), name (units ! un)]], False)
            else check_excl_list w_flag units dst un pat els
                   (diags @ [Warning ''unit %s excludes and requires presence of %s''
                               [name (units ! dst), name (units ! un)]], no_error_flag))
      else check_excl_list w_flag units dst un pat els (diags, no_error_flag))"

text \<open>The loop over \<^verbatim>\<open>dst->unit_decl->presence_list\<close> for a one-unit absence pattern.\<close>

fun check_presence_list ::
  "bool \<Rightarrow> unit_decl list \<Rightarrow> nat \<Rightarrow> nat \<Rightarrow> nat list list
     \<Rightarrow> diagnostic list \<times> bool \<Rightarrow> diagnostic list \<times> bool" where
  "check_presence_list w_flag units dst un [] (diags, no_error_flag) = (diags, no_error_flag)"
| "check_presence_list w_flag units dst un (curr_pat_el # els) (diags, no_error_flag) =
     (if length curr_pat_el = 1 \<and> un = curr_pat_el ! 0
      then (if \<not> w_flag
            then check_presence_list w_flag units dst un els
                   (diags @ [Error ''unit %s requires absence and presence of %s''
                               [name (units ! dst), name (units ! un)]], False)
            else check_presence_list w_flag units dst un els
                   (diags @ [Warning ''unit %s requires absence and presence of %s''
                               [name (units ! dst), name (units ! un)]], no_error_flag))
      else check_presence_list w_flag units dst un els (diags, no_error_flag))"

text \<open>
  The list whose last element \<^verbatim>\<open>prev_el\<close> is searched: for a presence pattern the
  source names \<^verbatim>\<open>final_presence_list\<close> on both branches of \<^verbatim>\<open>final_p ? : \<close>.
\<close>

definition searched_list :: "bool \<Rightarrow> bool \<Rightarrow> unit_decl \<Rightarrow> nat list list" where
  "searched_list presence_p final_p d =
     (if presence_p
      then (if final_p then final_presence_list d else final_presence_list d)
      else (if final_p then final_absence_list d else absence_list d))"

text \<open>
  Linking the copy in: when the searched list is empty (\<^verbatim>\<open>prev_el == NULL\<close>) the copy
  becomes the list selected by \<^verbatim>\<open>presence_p\<close> and \<^verbatim>\<open>final_p\<close>; otherwise it is
  hung behind the last element of the searched list.
\<close>

definition link_copy :: "bool \<Rightarrow> bool \<Rightarrow> nat list \<Rightarrow> unit_decl \<Rightarrow> unit_decl" where
  "link_copy presence_p final_p copy d =
     (if searched_list presence_p final_p d = []
      then (if presence_p
            then (if final_p then d\<lparr>final_presence_list := [copy]\<rparr>
                  else d\<lparr>presence_list := [copy]\<rparr>)
            else if final_p then d\<lparr>final_absence_list := [copy]\<rparr>
            else d\<lparr>absence_list := [copy]\<rparr>)
      else (if presence_p
            then (if final_p then d\<lparr>final_presence_list := final_presence_list d @ [copy]\<rparr>
                  else d\<lparr>final_presence_list := final_presence_list d @ [copy]\<rparr>)
            else (if final_p then d\<lparr>final_absence_list := final_absence_list d @ [copy]\<rparr>
                  else d\<lparr>absence_list := absence_list d @ [copy]\<rparr>)))"

text \<open>The body of the loop over the units \<open>pat ! i\<close> of one pattern, for the \<open>i\<close> in \<open>is\<close>.\<close>

fun add_presence_absence_units ::
  "bool \<Rightarrow> nat \<Rightarrow> nat list \<Rightarrow> bool \<Rightarrow> bool \<Rightarrow> nat list \<Rightarrow> checker_state \<Rightarrow> checker_state" where
  "add_presence_absence_units w_flag dst pat presence_p final_p [] (units, diags) = (units, diags)"
| "add_presence_absence_units w_flag dst pat presence_p final_p (i # is) (units, diags) =
     (let un = pat ! i in
      if dst = un \<and> length pat = 1 \<and> \<not> presence_p
      then add_presence_absence_units w_flag dst pat presence_p final_p is
             (units, diags @ [Error ''unit %s requires own absence'' [name (units ! un)]])
      else if automaton_name (units ! dst) \<noteq> None \<and> automaton_name (units ! un) \<noteq> None
              \<and> automaton_name (units ! dst) \<noteq> automaton_name (units ! un)
      then add_presence_absence_units w_flag dst pat presence_p final_p is
             (units, diags @
                [Error (if presence_p
                        then (if final_p
                              then ''units %s and %s in final presence set belong to different automata''
                              else ''units %s and %s in presence set belong to different automata'')
                        else (if final_p
                              then ''units %s and %s in final absence set belong to different automata''
                              else ''units %s and %s in absence set belong to different automata''))
                   [name (units ! un), name (units ! dst)]])
      else
        (let (diags', no_error_flag) =
               (if presence_p
                then check_excl_list w_flag units dst un pat (excl_list (units ! dst)) (diags, True)
                else if length pat = 1
                then check_presence_list w_flag units dst un (presence_list (units ! dst))
                       (diags, True)
                else (diags, True))
         in if no_error_flag
            then add_presence_absence_units w_flag dst pat presence_p final_p is
                   (units[dst := link_copy presence_p final_p pat (units ! dst)], diags')
            else add_presence_absence_units w_flag dst pat presence_p final_p is
                   (units, diags')))"

fun add_presence_absence_patterns ::
  "bool \<Rightarrow> nat \<Rightarrow> nat list list \<Rightarrow> bool \<Rightarrow> bool \<Rightarrow> checker_state \<Rightarrow> checker_state" where
  "add_presence_absence_patterns w_flag dst [] presence_p final_p cs = cs"
| "add_presence_absence_patterns w_flag dst (pat # pattern_list) presence_p final_p cs =
     add_presence_absence_patterns w_flag dst pattern_list presence_p final_p
       (add_presence_absence_units w_flag dst pat presence_p final_p [0 ..< length pat] cs)"

fun add_presence_absence ::
  "bool \<Rightarrow> nat list \<Rightarrow> nat list list \<Rightarrow> bool \<Rightarrow> bool \<Rightarrow> checker_state \<Rightarrow> checker_state" where
  "add_presence_absence w_flag [] pattern_list presence_p final_p cs = cs"
| "add_presence_absence w_flag (dst # dest_list) pattern_list presence_p final_p cs =
     add_presence_absence w_flag dest_list pattern_list presence_p final_p
       (add_presence_absence_patterns w_flag dst pattern_list presence_p final_p cs)"

text \<open>Three units \<open>a\<close>, \<open>b\<close>, \<open>c\<close> without automaton names and without any set.\<close>

definition plain_unit :: "string \<Rightarrow> nat \<Rightarrow> unit_decl" where
  "plain_unit n k =
     \<lparr>name = n, automaton_name = None, query_p = False, unit_num = k,
      automaton_decl = None, max_occ_cycle_num = 0, min_occ_cycle_num = -1,
      excl_list = [], presence_list = [], final_presence_list = [], absence_list = [],
      final_absence_list = [], query_num = 0, in_set_p = False\<rparr>"

definition three_units :: "unit_decl list" where
  "three_units = [plain_unit ''a'' 0, plain_unit ''b'' 1, plain_unit ''c'' 2]"

subsection \<open>Reservation expressions and declarations\<close>

text \<open>
  \<^verbatim>\<open>struct regexp\<close>, with the constructors named after \<^verbatim>\<open>enum regexp_mode\<close>.  A unit
  node holds its \<^verbatim>\<open>unit_decl\<close> pointer (an index into the unit declarations), a
  reservation node its \<^verbatim>\<open>reserv_decl\<close> pointer (the index of the declaration in
  \<^verbatim>\<open>description->decls\<close>); positions are left out.
\<close>

datatype regexp =
    rm_unit nat
  | rm_reserv nat
  | rm_nothing
  | rm_sequence "regexp list"
  | rm_repeat regexp int
  | rm_allof "regexp list"
  | rm_oneof "regexp list"

record bypass_decl =
  latency :: int

record reserv_decl =
  name :: string
  regexp :: "regexp option"
  loop_pass_num :: int

record insn_reserv_decl =
  name :: string
  default_latency :: int
  regexp :: "regexp option"

text \<open>
  \<^verbatim>\<open>struct decl\<close>: the mode and the payload the modelled functions read.  A unit
  declaration holds the index of its \<^verbatim>\<open>unit_decl\<close>.
\<close>

datatype decl =
    dm_unit nat
  | dm_bypass bypass_decl
  | dm_automaton
  | dm_excl
  | dm_presence
  | dm_absence
  | dm_reserv reserv_decl
  | dm_insn_reserv insn_reserv_decl

subsection \<open>Maximal reservation length and the queue index\<close>














subsection \<open>Comb vectors\<close>

text \<open>
  \<^verbatim>\<open>struct state_ainsn_table\<close>.  The four vectors are lists of \<^verbatim>\<open>vect_el_t\<close>; of the
  automaton the table code reads \<^verbatim>\<open>insn_equiv_classes_num\<close> and
  \<^verbatim>\<open>achieved_states_num\<close>.  The file-level variable \<^verbatim>\<open>undefined_vect_el_value\<close> is
  the first argument of the functions below.
\<close>

record state_ainsn_table =
  automaton :: automaton
  comb_vect :: "int list"
  check_vect :: "int list"
  base_vect :: "int list"
  full_vect :: "int list"
  min_comb_vect_el_value :: int
  max_comb_vect_el_value :: int
  min_base_vect_el_value :: int
  max_base_vect_el_value :: int


text \<open>The loop that copies the vector into the full vector, for the \<open>i\<close> in \<open>is\<close>.\<close>

fun form_full_vect :: "nat \<Rightarrow> nat \<Rightarrow> int list \<Rightarrow> nat list \<Rightarrow> int list \<Rightarrow> int list" where
  "form_full_vect classes vect_num vect [] full = full"
| "form_full_vect classes vect_num vect (i # is) full =
     form_full_vect classes vect_num vect is (full[i + classes * vect_num := vect ! i])"


















subsection \<open>Cycles in reservation definitions\<close>

text \<open>
  \<^verbatim>\<open>loop_in_regexp\<close>.  The declarations are passed in and returned, since the
  function marks the reservations it enters with \<^verbatim>\<open>curr_loop_pass_num\<close>;
  \<open>start_decl\<close> is the index of the declaration the pass started from.  The loops
  over the operands stop at the first operand for which the call returns nonzero.
  The recursion through reservation references is bounded by a number of references
  still to follow, and \<open>None\<close> is returned when that number is used up.
\<close>

function loop_in_regexp ::
  "nat \<Rightarrow> int \<Rightarrow> nat \<Rightarrow> regexp \<Rightarrow> decl list \<Rightarrow> (decl list \<times> bool) option" where
  "loop_in_regexp n curr_loop_pass_num start_decl (rm_unit u) ds = Some (ds, False)"
| "loop_in_regexp n curr_loop_pass_num start_decl (rm_reserv k) ds =
     (if (case ds ! start_decl of dm_reserv d \<Rightarrow> True | _ \<Rightarrow> False) \<and> k = start_decl
      then Some (ds, True)
      else (case ds ! k of
              dm_reserv d \<Rightarrow>
                if loop_pass_num d = curr_loop_pass_num then Some (ds, False)
                else (case reserv_decl.regexp d of
                        None \<Rightarrow>
                          Some (ds[k := dm_reserv (d\<lparr>loop_pass_num := curr_loop_pass_num\<rparr>)],
                                False)
                      | Some r \<Rightarrow>
                         (case n of
                            0 \<Rightarrow> None
                          | Suc n' \<Rightarrow>
                              loop_in_regexp n' curr_loop_pass_num start_decl r
                                (ds[k := dm_reserv
                                         (d\<lparr>loop_pass_num := curr_loop_pass_num\<rparr>)])))
            | _ \<Rightarrow> None))"
| "loop_in_regexp n curr_loop_pass_num start_decl (rm_sequence rs) ds =
     fold (\<lambda>r acc. case acc of
              None \<Rightarrow> None
            | Some (ds', found) \<Rightarrow>
                if found then Some (ds', True)
                else loop_in_regexp n curr_loop_pass_num start_decl r ds')
       rs (Some (ds, False))"
| "loop_in_regexp n curr_loop_pass_num start_decl (rm_allof rs) ds =
     fold (\<lambda>r acc. case acc of
              None \<Rightarrow> None
            | Some (ds', found) \<Rightarrow>
                if found then Some (ds', True)
                else loop_in_regexp n curr_loop_pass_num start_decl r ds')
       rs (Some (ds, False))"
| "loop_in_regexp n curr_loop_pass_num start_decl (rm_oneof rs) ds =
     fold (\<lambda>r acc. case acc of
              None \<Rightarrow> None
            | Some (ds', found) \<Rightarrow>
                if found then Some (ds', True)
                else loop_in_regexp n curr_loop_pass_num start_decl r ds')
       rs (Some (ds, False))"
| "loop_in_regexp n curr_loop_pass_num start_decl (rm_repeat r repeat_num) ds =
     loop_in_regexp n curr_loop_pass_num start_decl r ds"
| "loop_in_regexp n curr_loop_pass_num start_decl rm_nothing ds = Some (ds, False)"
  by pat_completeness auto
termination
  by (relation "measures [\<lambda>(n, c, s, r, d). n, \<lambda>(n, c, s, r, d). size r]")
     (auto simp: less_Suc_eq_le size_list_estimation')

text \<open>
  \<^verbatim>\<open>check_loops_in_regexps\<close>: the first loop clears the marks, the second runs one pass
  for each declaration, with the index of the declaration as pass number.
\<close>

fun clear_loop_pass_num :: "decl \<Rightarrow> decl" where
  "clear_loop_pass_num (dm_reserv d) = dm_reserv (d\<lparr>loop_pass_num := 0\<rparr>)"
| "clear_loop_pass_num decl = decl"



text \<open>
  The reference graph of a list of declarations: declaration \<open>i\<close> refers to
  declaration \<open>k\<close> when \<open>i\<close> is a reservation whose expression has a node
  \<open>rm_reserv k\<close>.  A reservation is cyclic when it refers to itself through one or
  more references.
\<close>

fun reservs_of :: "regexp \<Rightarrow> nat set" where
  "reservs_of (rm_unit u) = {}"
| "reservs_of (rm_reserv k) = {k}"
| "reservs_of rm_nothing = {}"
| "reservs_of (rm_sequence rs) = (\<Union>r\<in>set rs. reservs_of r)"
| "reservs_of (rm_repeat r repeat_num) = reservs_of r"
| "reservs_of (rm_allof rs) = (\<Union>r\<in>set rs. reservs_of r)"
| "reservs_of (rm_oneof rs) = (\<Union>r\<in>set rs. reservs_of r)"

definition decl_refs :: "decl \<Rightarrow> nat set" where
  "decl_refs decl =
     (case decl of
        dm_reserv d \<Rightarrow> (case reserv_decl.regexp d of Some r \<Rightarrow> reservs_of r | None \<Rightarrow> {})
      | _ \<Rightarrow> {})"

definition refers :: "decl list \<Rightarrow> (nat \<times> nat) set" where
  "refers ds = {(i, k). i < length ds \<and> k \<in> decl_refs (ds ! i)}"


text \<open>
  After \<^verbatim>\<open>process_regexp\<close> every reservation node refers to a reservation
  declaration of the description.
\<close>

definition linked :: "decl list \<Rightarrow> bool" where
  "linked ds \<longleftrightarrow>
     (\<forall>i<length ds. \<forall>k\<in>decl_refs (ds ! i).
        k < length ds \<and> (\<exists>d. ds ! k = dm_reserv d))"

text \<open>
  Two descriptions: \<^verbatim>\<open>R := S\<close>, \<^verbatim>\<open>S := R\<close> after a unit declaration, and
  \<^verbatim>\<open>R := u\<close>, \<^verbatim>\<open>S := R\<close>.
\<close>

definition cyclic_decls :: "decl list" where
  "cyclic_decls =
     [dm_unit 0,
      dm_reserv \<lparr>reserv_decl.name = ''R'', reserv_decl.regexp = Some (rm_reserv 2), loop_pass_num = 0\<rparr>,
      dm_reserv \<lparr>reserv_decl.name = ''S'',
                 reserv_decl.regexp = Some (rm_sequence [rm_unit 0, rm_reserv 1]),
                 loop_pass_num = 0\<rparr>]"

definition acyclic_decls :: "decl list" where
  "acyclic_decls =
     [dm_unit 0,
      dm_reserv \<lparr>reserv_decl.name = ''R'', reserv_decl.regexp = Some (rm_unit 0), loop_pass_num = 0\<rparr>,
      dm_reserv \<lparr>reserv_decl.name = ''S'',
                 reserv_decl.regexp = Some (rm_sequence [rm_reserv 1, rm_reserv 1]),
                 loop_pass_num = 0\<rparr>]"

text \<open>
  For the proof: whether a declaration is a reservation, the reservations that
  carry the mark \<open>c\<close> and those that do not, and the first-declaration description
  \<^verbatim>\<open>R := S\<close>, \<^verbatim>\<open>S := R\<close>.
\<close>

fun is_reserv :: "decl \<Rightarrow> bool" where
  "is_reserv (dm_reserv d) = True"
| "is_reserv decl = False"

definition visited :: "int \<Rightarrow> decl list \<Rightarrow> nat set" where
  "visited c ds = {k. k < length ds \<and> (\<exists>d. ds ! k = dm_reserv d \<and> loop_pass_num d = c)}"

definition unvisited :: "int \<Rightarrow> decl list \<Rightarrow> nat set" where
  "unvisited c ds = {k. k < length ds \<and> (\<exists>d. ds ! k = dm_reserv d \<and> loop_pass_num d \<noteq> c)}"


text \<open>
  What a call of \<^verbatim>\<open>loop_in_regexp\<close> needs and what it leaves behind, for an
  expression whose reservation nodes are \<open>R\<close>.  The call changes marks only; it
  answers nonzero only when the start declaration can be reached from \<open>R\<close>; and when
  it answers zero, every reservation of \<open>R\<close> is marked and differs from the start
  declaration, and every reservation marked during the call refers to marked
  reservations only and not to the start declaration.
\<close>

definition dfs_pre :: "nat \<Rightarrow> int \<Rightarrow> nat \<Rightarrow> decl list \<Rightarrow> nat set \<Rightarrow> bool" where
  "dfs_pre n c st ds R \<longleftrightarrow>
     linked ds \<and> st < length ds \<and> is_reserv (ds ! st) \<and> card (unvisited c ds) \<le> n
     \<and> (\<forall>k\<in>R. k < length ds \<and> is_reserv (ds ! k))"

definition dfs_post :: "int \<Rightarrow> nat \<Rightarrow> decl list \<Rightarrow> nat set \<Rightarrow> decl list \<Rightarrow> bool \<Rightarrow> bool" where
  "dfs_post c st ds R ds' b \<longleftrightarrow>
     map clear_loop_pass_num ds' = map clear_loop_pass_num ds
     \<and> visited c ds \<subseteq> visited c ds'
     \<and> (\<forall>k<length ds. ds' ! k = ds ! k \<or> k \<in> visited c ds')
     \<and> (b \<longrightarrow> (\<exists>k\<in>R. (k, st) \<in> (refers ds)\<^sup>*))
     \<and> (\<not> b \<longrightarrow>
          (\<forall>k\<in>R. k \<noteq> st \<and> k \<in> visited c ds')
          \<and> (\<forall>w\<in>visited c ds' - visited c ds.
                st \<notin> decl_refs (ds ! w) \<and> decl_refs (ds ! w) \<subseteq> visited c ds'))"


subsection \<open>Intersection of reservation sets\<close>

text \<open>
  \<^verbatim>\<open>get_excl_set\<close>.  \<open>in_set\<close> points at the reservation of one cycle.  The chars are
  scanned upwards and the bits of a char from \<^verbatim>\<open>CHAR_BIT - 1\<close> down to 0; the result
  of the bit loop tells whether the function returned from inside it (at a bit that
  is not the number of a unit).  The static buffer \<^verbatim>\<open>excl_set\<close> is the accumulator.
\<close>

fun get_excl_set_bits ::
  "globals \<Rightarrow> reserv_sets \<Rightarrow> nat \<Rightarrow> nat list \<Rightarrow> reserv_sets \<Rightarrow> bool \<times> reserv_sets" where
  "get_excl_set_bits g in_set excl_char_num [] excl_set = (False, excl_set)"
| "get_excl_set_bits g in_set excl_char_num (i # bits) excl_set =
     (if bit (in_set ! excl_char_num) i
      then (let start_unit_num = excl_char_num * CHAR_BIT + i in
            if start_unit_num \<ge> units_num g then (True, excl_set)
            else get_excl_set_bits g in_set excl_char_num bits
                   (map2 (OR) excl_set (unit_excl_set_table g ! start_unit_num)))
      else get_excl_set_bits g in_set excl_char_num bits excl_set)"

fun get_excl_set_chars ::
  "globals \<Rightarrow> reserv_sets \<Rightarrow> nat list \<Rightarrow> reserv_sets \<Rightarrow> reserv_sets" where
  "get_excl_set_chars g in_set [] excl_set = excl_set"
| "get_excl_set_chars g in_set (excl_char_num # chars) excl_set =
     (if in_set ! excl_char_num \<noteq> 0
      then (case get_excl_set_bits g in_set excl_char_num (rev [0 ..< CHAR_BIT]) excl_set of
              (True, e) \<Rightarrow> e
            | (False, e) \<Rightarrow> get_excl_set_chars g in_set chars e)
      else get_excl_set_chars g in_set chars excl_set)"

definition get_excl_set :: "globals \<Rightarrow> reserv_sets \<Rightarrow> reserv_sets" where
  "get_excl_set g in_set =
     get_excl_set_chars g in_set [0 ..< chars_num g] (replicate (chars_num g) 0)"

text \<open>
  \<^verbatim>\<open>check_presence_pattern_sets\<close>.  The innermost loop runs to the end when every
  element of the pattern is contained in the checked set; the loop over the patterns
  of a unit leaves \<^verbatim>\<open>presence_p\<close> set when that happened for one of them.  The bit
  loop yields \<open>False\<close> when the function returns \<^verbatim>\<open>FALSE\<close> from inside it, and
  \<open>True\<close> when it ends or is left by \<^verbatim>\<open>break\<close>, after which the next char is
  scanned.
\<close>

definition presence_pattern_holds :: "globals \<Rightarrow> reserv_sets \<Rightarrow> reserv_sets \<Rightarrow> bool" where
  "presence_pattern_holds g checked_set reserv \<longleftrightarrow>
     list_all (\<lambda>un. (checked_set ! un) AND (reserv ! un) = reserv ! un) [0 ..< chars_num g]"

fun check_presence_pattern_sets_bits ::
  "globals \<Rightarrow> reserv_sets \<Rightarrow> reserv_sets \<Rightarrow> bool \<Rightarrow> nat \<Rightarrow> nat list \<Rightarrow> bool" where
  "check_presence_pattern_sets_bits g checked_set origional_set final_p char_num [] = True"
| "check_presence_pattern_sets_bits g checked_set origional_set final_p char_num (i # bits) =
     (if bit (origional_set ! char_num) i
      then (let start_unit_num = char_num * CHAR_BIT + i in
            if start_unit_num \<ge> units_num g then True
            else if (final_p \<and> unit_final_presence_set_table g ! start_unit_num = [])
                    \<or> (\<not> final_p \<and> unit_presence_set_table g ! start_unit_num = [])
            then check_presence_pattern_sets_bits g checked_set origional_set final_p
                   char_num bits
            else if \<not> list_ex (presence_pattern_holds g checked_set)
                         (if final_p then unit_final_presence_set_table g ! start_unit_num
                          else unit_presence_set_table g ! start_unit_num)
            then False
            else check_presence_pattern_sets_bits g checked_set origional_set final_p
                   char_num bits)
      else check_presence_pattern_sets_bits g checked_set origional_set final_p char_num bits)"

fun check_presence_pattern_sets_chars ::
  "globals \<Rightarrow> reserv_sets \<Rightarrow> reserv_sets \<Rightarrow> bool \<Rightarrow> nat list \<Rightarrow> bool" where
  "check_presence_pattern_sets_chars g checked_set origional_set final_p [] = True"
| "check_presence_pattern_sets_chars g checked_set origional_set final_p (char_num # chars) =
     (if origional_set ! char_num \<noteq> 0
      then (if check_presence_pattern_sets_bits g checked_set origional_set final_p char_num
                 (rev [0 ..< CHAR_BIT])
            then check_presence_pattern_sets_chars g checked_set origional_set final_p chars
            else False)
      else check_presence_pattern_sets_chars g checked_set origional_set final_p chars)"

definition check_presence_pattern_sets ::
  "globals \<Rightarrow> reserv_sets \<Rightarrow> reserv_sets \<Rightarrow> bool \<Rightarrow> bool" where
  "check_presence_pattern_sets g checked_set origional_set final_p =
     check_presence_pattern_sets_chars g checked_set origional_set final_p [0 ..< chars_num g]"

text \<open>
  \<^verbatim>\<open>check_absence_pattern_sets\<close>.  Here the innermost loop stops at an element of the
  pattern that is not contained in the checked set and is not zero, and the function
  returns \<^verbatim>\<open>FALSE\<close> for the first pattern on which the loop runs to the end.
\<close>

definition absence_pattern_holds :: "globals \<Rightarrow> reserv_sets \<Rightarrow> reserv_sets \<Rightarrow> bool" where
  "absence_pattern_holds g checked_set reserv \<longleftrightarrow>
     list_all (\<lambda>un. \<not> ((checked_set ! un) AND (reserv ! un) \<noteq> reserv ! un
                       \<and> reserv ! un \<noteq> 0)) [0 ..< chars_num g]"

fun check_absence_pattern_sets_bits ::
  "globals \<Rightarrow> reserv_sets \<Rightarrow> reserv_sets \<Rightarrow> bool \<Rightarrow> nat \<Rightarrow> nat list \<Rightarrow> bool" where
  "check_absence_pattern_sets_bits g checked_set origional_set final_p char_num [] = True"
| "check_absence_pattern_sets_bits g checked_set origional_set final_p char_num (i # bits) =
     (if bit (origional_set ! char_num) i
      then (let start_unit_num = char_num * CHAR_BIT + i in
            if start_unit_num \<ge> units_num g then True
            else if list_ex (absence_pattern_holds g checked_set)
                      (if final_p then unit_final_absence_set_table g ! start_unit_num
                       else unit_absence_set_table g ! start_unit_num)
            then False
            else check_absence_pattern_sets_bits g checked_set origional_set final_p
                   char_num bits)
      else check_absence_pattern_sets_bits g checked_set origional_set final_p char_num bits)"

fun check_absence_pattern_sets_chars ::
  "globals \<Rightarrow> reserv_sets \<Rightarrow> reserv_sets \<Rightarrow> bool \<Rightarrow> nat list \<Rightarrow> bool" where
  "check_absence_pattern_sets_chars g checked_set origional_set final_p [] = True"
| "check_absence_pattern_sets_chars g checked_set origional_set final_p (char_num # chars) =
     (if origional_set ! char_num \<noteq> 0
      then (if check_absence_pattern_sets_bits g checked_set origional_set final_p char_num
                 (rev [0 ..< CHAR_BIT])
            then check_absence_pattern_sets_chars g checked_set origional_set final_p chars
            else False)
      else check_absence_pattern_sets_chars g checked_set origional_set final_p chars)"

definition check_absence_pattern_sets ::
  "globals \<Rightarrow> reserv_sets \<Rightarrow> reserv_sets \<Rightarrow> bool \<Rightarrow> bool" where
  "check_absence_pattern_sets g checked_set origional_set final_p =
     check_absence_pattern_sets_chars g checked_set origional_set final_p [0 ..< chars_num g]"

text \<open>
  \<^verbatim>\<open>reserv_sets_are_intersected\<close>.  A null operand is \<open>None\<close>.  The second loop moves
  both cycle pointers by \<^verbatim>\<open>els_in_cycle_reserv\<close> elements up to \<^verbatim>\<open>els_in_reservs\<close>, which
  is one step for each cycle; a pointer into an operand is the rest of the list from
  that position.  \<open>temp_reserv\<close> is the static buffer the union is written to.
\<close>

definition intersected_on_cycle ::
  "globals \<Rightarrow> reserv_sets \<Rightarrow> reserv_sets \<Rightarrow> reserv_sets \<Rightarrow> nat \<Rightarrow> bool" where
  "intersected_on_cycle g operand_1 operand_2 temp_reserv cycle =
     (let cycle_ptr_1 = drop (cycle * chars_num g) operand_1;
          cycle_ptr_2 = drop (cycle * chars_num g) operand_2;
          excl_set = get_excl_set g cycle_ptr_2
      in if list_ex (\<lambda>el. (cycle_ptr_1 ! el) AND (excl_set ! el) \<noteq> 0) [0 ..< chars_num g]
         then True
         else if \<not> check_presence_pattern_sets g cycle_ptr_1 cycle_ptr_2 False then True
         else if \<not> check_presence_pattern_sets g (drop (cycle * chars_num g) temp_reserv)
                     cycle_ptr_2 True then True
         else if \<not> check_absence_pattern_sets g cycle_ptr_1 cycle_ptr_2 False then True
         else if \<not> check_absence_pattern_sets g (drop (cycle * chars_num g) temp_reserv)
                     cycle_ptr_2 True then True
         else False)"

definition reserv_sets_are_intersected ::
  "globals \<Rightarrow> reserv_sets option \<Rightarrow> reserv_sets option \<Rightarrow> error + bool" where
  "reserv_sets_are_intersected g operand_1 operand_2 =
     (case (operand_1, operand_2) of
        (Some op1, Some op2) \<Rightarrow>
          if list_ex (\<lambda>el. (op1 ! el) AND (op2 ! el) \<noteq> 0)
               [0 ..< els_in_reservs g * sizeof_set_el g]
          then Inr True
          else (let temp_reserv = reserv_sets_or op1 op2
                in Inr (list_ex (intersected_on_cycle g op1 op2 temp_reserv)
                          (if els_in_cycle_reserv g = 0 then [] else [0 ..< max_cycles_num g])))
      | _ \<Rightarrow> Inl Abort)"

text \<open>
  Two units \<open>u\<close> and \<open>v\<close> with \<^verbatim>\<open>absence_set "u" "v"\<close>: the only pattern is the absence
  pattern \<open>{v}\<close> of unit \<open>u\<close>.  Reservations have one cycle.
\<close>

definition absence_globals :: globals where
  "absence_globals =
     \<lparr>units_num = 2, query_units_num = 0, max_cycles_num = 1, sizeof_set_el = 4,
      units_array = [(plain_unit ''u'' 0)\<lparr>absence_list := [[1]]\<rparr>, plain_unit ''v'' 1],
      unit_excl_set_table = [[0, 0, 0, 0], [0, 0, 0, 0]],
      unit_presence_set_table = [[], []],
      unit_final_presence_set_table = [[], []],
      unit_absence_set_table = [[[2, 0, 0, 0]], []],
      unit_final_absence_set_table = [[], []]\<rparr>"

text \<open>
  For the statement about \<^verbatim>\<open>reserv_sets_are_intersected\<close>: unit \<open>un\<close> is reserved on
  a cycle of a reservation set; the units of a pattern are all reserved on a cycle;
  no bit of a cycle beyond the units is set; and the five ways in which the
  reservations on a cycle can be at odds with the sets of a unit \<open>un\<close>.
\<close>

definition unit_reserved :: "globals \<Rightarrow> reserv_sets \<Rightarrow> nat \<Rightarrow> nat \<Rightarrow> bool" where
  "unit_reserved g rs cycle un \<longleftrightarrow> TEST_BIT rs (cycle * cycle_bits g + un)"

definition pattern_reserved :: "globals \<Rightarrow> reserv_sets \<Rightarrow> reserv_sets \<Rightarrow> nat \<Rightarrow> bool" where
  "pattern_reserved g reserv rs cycle \<longleftrightarrow>
     (\<forall>un<cycle_bits g. TEST_BIT reserv un \<longrightarrow> unit_reserved g rs cycle un)"

definition units_only :: "globals \<Rightarrow> reserv_sets \<Rightarrow> bool" where
  "units_only g rs \<longleftrightarrow>
     (\<forall>cycle<max_cycles_num g. \<forall>un<cycle_bits g.
        unit_reserved g rs cycle un \<longrightarrow> un < units_num g)"

definition unit_conflict ::
  "globals \<Rightarrow> reserv_sets \<Rightarrow> reserv_sets \<Rightarrow> nat \<Rightarrow> nat \<Rightarrow> bool" where
  "unit_conflict g operand_1 operand_2 cycle un \<longleftrightarrow>
     (\<exists>other<cycle_bits g. TEST_BIT (unit_excl_set_table g ! un) other
          \<and> unit_reserved g operand_1 cycle other)
     \<or> (unit_presence_set_table g ! un \<noteq> []
        \<and> (\<forall>p\<in>set (unit_presence_set_table g ! un). \<not> pattern_reserved g p operand_1 cycle))
     \<or> (unit_final_presence_set_table g ! un \<noteq> []
        \<and> (\<forall>p\<in>set (unit_final_presence_set_table g ! un).
              \<not> pattern_reserved g p (reserv_sets_or operand_1 operand_2) cycle))
     \<or> (\<exists>p\<in>set (unit_absence_set_table g ! un). pattern_reserved g p operand_1 cycle)
     \<or> (\<exists>p\<in>set (unit_final_absence_set_table g ! un).
           pattern_reserved g p (reserv_sets_or operand_1 operand_2) cycle)"

text \<open>The tables have an entry for each unit, and every bit string in them is long enough.\<close>

definition tables_formed :: "globals \<Rightarrow> bool" where
  "tables_formed g \<longleftrightarrow>
     0 < sizeof_set_el g
     \<and> length (unit_excl_set_table g) = units_num g
     \<and> (\<forall>e\<in>set (unit_excl_set_table g). length e = chars_num g)
     \<and> (\<forall>t\<in>{unit_presence_set_table g, unit_final_presence_set_table g,
              unit_absence_set_table g, unit_final_absence_set_table g}.
          length t = units_num g
          \<and> (\<forall>ps\<in>set t. \<forall>p\<in>set ps. chars_num g \<le> length p))"


subsection \<open>Building the automaton\<close>

text \<open>
  The data the state and arc functions work on: the state nodes, the state table
  (the states inserted so far; \<^verbatim>\<open>htab_find_slot\<close> finds the one that \<^verbatim>\<open>state_eq_p\<close>
  holds for), the stack \<^verbatim>\<open>free_states\<close>, \<^verbatim>\<open>curr_unique_state_num\<close> and the automaton
  being built.  All states belong to that automaton.  A null \<^verbatim>\<open>reservs\<close> pointer is
  the empty list; \<^verbatim>\<open>create_node\<close> zeroes the node it returns.
\<close>

record machine =
  state_nodes :: "state list"
  state_table :: "nat list"
  free_states :: "nat list"
  curr_unique_state_num :: nat
  the_automaton :: automaton

definition create_state_node :: "nat \<Rightarrow> state" where
  "create_state_node n =
     \<lparr>reservs = [], unique_num = n, first_out_arc = [],
      it_was_placed_in_stack_for_NDFA_forming = False,
      it_was_placed_in_stack_for_DFA_forming = False,
      component_states = [], pass_num = 0, equiv_class_num_1 = 0, equiv_class_num_2 = 0,
      equiv_class_state = 0, order_state_num = 0\<rparr>"

definition get_free_state :: "globals \<Rightarrow> bool \<Rightarrow> machine \<Rightarrow> error + nat \<times> machine" where
  "get_free_state g with_reservs m =
     (if max_cycles_num g \<le> 0 then Inl Abort
      else
        (let (result, m1) =
               (if free_states m \<noteq> []
                then (last (free_states m),
                      m\<lparr>free_states := butlast (free_states m),
                        state_nodes := (state_nodes m)
                          [last (free_states m) :=
                             (state_nodes m ! last (free_states m))
                               \<lparr>first_out_arc := [],
                                it_was_placed_in_stack_for_NDFA_forming := False,
                                it_was_placed_in_stack_for_DFA_forming := False,
                                component_states := []\<rparr>]\<rparr>)
                else (length (state_nodes m),
                      m\<lparr>state_nodes :=
                          state_nodes m @ [create_state_node (curr_unique_state_num m)],
                        curr_unique_state_num := curr_unique_state_num m + 1\<rparr>))
         in Inr (result,
                 if with_reservs
                 then m1\<lparr>state_nodes := (state_nodes m1)
                          [result := (state_nodes m1 ! result)
                                       \<lparr>reservs := alloc_empty_reserv_sets g\<rparr>]\<rparr>
                 else m1)))"

definition free_state :: "nat \<Rightarrow> machine \<Rightarrow> machine" where
  "free_state st m = m\<lparr>free_states := free_states m @ [st]\<rparr>"

definition state_eq_p :: "state \<Rightarrow> state \<Rightarrow> bool" where
  "state_eq_p state_1 state_2 =
     (if component_states state_1 = [] \<and> component_states state_2 = []
      then reservs state_1 = reservs state_2
      else if component_states state_1 \<noteq> [] \<and> component_states state_2 \<noteq> []
      then component_states state_1 = component_states state_2
      else False)"

definition insert_state :: "nat \<Rightarrow> machine \<Rightarrow> nat \<times> machine" where
  "insert_state st m =
     (case find (\<lambda>t. state_eq_p (state_nodes m ! st) (state_nodes m ! t)) (state_table m) of
        Some t \<Rightarrow> (t, m)
      | None \<Rightarrow> (st, m\<lparr>state_table := state_table m @ [st]\<rparr>))"

definition intersected_state_reservs_p ::
  "globals \<Rightarrow> machine \<Rightarrow> nat \<Rightarrow> nat \<Rightarrow> error + bool" where
  "intersected_state_reservs_p g m state1 state2 =
     reserv_sets_are_intersected g (Some (reservs (state_nodes m ! state1)))
       (Some (reservs (state_nodes m ! state2)))"

definition states_union ::
  "globals \<Rightarrow> nat \<Rightarrow> nat \<Rightarrow> reserv_sets \<Rightarrow> machine \<Rightarrow> error + nat \<times> machine" where
  "states_union g state1 state2 rsv m =
     (case get_free_state g True m of
        Inl e \<Rightarrow> Inl e
      | Inr (result, m1) \<Rightarrow>
          (let m2 = m1\<lparr>state_nodes := (state_nodes m1)
                        [result := (state_nodes m1 ! result)
                           \<lparr>reservs := states_union_reservs
                                          (reservs (state_nodes m1 ! state1))
                                          (reservs (state_nodes m1 ! state2)) rsv\<rparr>]\<rparr>;
                (state_in_table, m3) = insert_state result m2
           in if result \<noteq> state_in_table then Inr (state_in_table, free_state result m3)
              else Inr (result, m3)))"

definition state_shift ::
  "globals \<Rightarrow> nat \<Rightarrow> reserv_sets \<Rightarrow> machine \<Rightarrow> error + nat \<times> machine" where
  "state_shift g st rsv m =
     (case get_free_state g True m of
        Inl e \<Rightarrow> Inl e
      | Inr (result, m1) \<Rightarrow>
          (let m2 = m1\<lparr>state_nodes := (state_nodes m1)
                        [result := (state_nodes m1 ! result)
                           \<lparr>reservs := reserv_sets_and
                                          (reserv_sets_shift g (reservs (state_nodes m1 ! result))
                                             (reservs (state_nodes m1 ! st))) rsv\<rparr>]\<rparr>;
                (state_in_table, m3) = insert_state result m2
           in if result \<noteq> state_in_table then Inr (state_in_table, free_state result m3)
              else Inr (result, m3)))"

text \<open>
  \<^verbatim>\<open>find_arc\<close> and \<^verbatim>\<open>add_arc\<close>.  A state has at most one arc to a given state marked
  by a given instruction, so the arc that \<^verbatim>\<open>add_arc\<close> returns is named by its
  \<open>to_state\<close> and \<open>insn\<close>.
\<close>

definition find_arc :: "state \<Rightarrow> nat \<Rightarrow> nat \<Rightarrow> arc option" where
  "find_arc from_state to ai =
     find (\<lambda>a. to_state a = to \<and> insn a = ai) (first_out_arc from_state)"

definition add_arc :: "nat \<Rightarrow> nat \<Rightarrow> nat \<Rightarrow> int \<Rightarrow> machine \<Rightarrow> machine" where
  "add_arc from_state to ai alts m =
     (case find_arc (state_nodes m ! from_state) to ai of
        Some new_arc \<Rightarrow> m
      | None \<Rightarrow>
          m\<lparr>state_nodes := (state_nodes m)
               [from_state := (state_nodes m ! from_state)
                  \<lparr>first_out_arc :=
                     \<lparr>to_state = to, insn = ai, state_alts = alts\<rparr>
                       # first_out_arc (state_nodes m ! from_state)\<rparr>],
            the_automaton := (the_automaton m)
               \<lparr>ainsn_list := (ainsn_list (the_automaton m))
                  [ai := (ainsn_list (the_automaton m) ! ai)\<lparr>arc_exists_p := True\<rparr>]\<rparr>\<rparr>)"

text \<open>
  \<^verbatim>\<open>make_automaton\<close>.  Marking a state and pushing it on the state stack; the first
  loop over the alt states of an instruction, left at the first arc added when
  \<^verbatim>\<open>ndfa_flag\<close> is zero, which yields the \<open>to_state\<close> of \<^verbatim>\<open>added_arc\<close>; the second
  loop, which counts the alt states that do not intersect the state; the loop over
  the instructions, which also finds \<^verbatim>\<open>advance_cycle_ainsn\<close>; and the loop over the
  state stack, which takes its states from the end.  The number bounds the states
  taken from the stack.
\<close>

definition push_for_NDFA :: "nat \<Rightarrow> machine \<times> nat list \<Rightarrow> machine \<times> nat list" where
  "push_for_NDFA state2 ms =
     (case ms of (m, state_stack) \<Rightarrow>
        if \<not> it_was_placed_in_stack_for_NDFA_forming (state_nodes m ! state2)
        then (m\<lparr>state_nodes := (state_nodes m)
                   [state2 := (state_nodes m ! state2)
                      \<lparr>it_was_placed_in_stack_for_NDFA_forming := True\<rparr>]\<rparr>,
              state_stack @ [state2])
        else (m, state_stack))"

fun make_automaton_alts ::
  "globals \<Rightarrow> bool \<Rightarrow> reserv_sets \<Rightarrow> nat \<Rightarrow> nat \<Rightarrow> nat list
     \<Rightarrow> machine \<times> nat list \<times> nat option \<Rightarrow> error + machine \<times> nat list \<times> nat option" where
  "make_automaton_alts g ndfa_flag reservs_matter st ai [] acc = Inr acc"
| "make_automaton_alts g ndfa_flag reservs_matter st ai (alt # alts) (m, state_stack, added_arc) =
     (case intersected_state_reservs_p g m st alt of
        Inl e \<Rightarrow> Inl e
      | Inr True \<Rightarrow>
          make_automaton_alts g ndfa_flag reservs_matter st ai alts (m, state_stack, added_arc)
      | Inr False \<Rightarrow>
          (case states_union g st alt reservs_matter m of
             Inl e \<Rightarrow> Inl e
           | Inr (state2, m1) \<Rightarrow>
               (case push_for_NDFA state2 (m1, state_stack) of
                  (m2, stack2) \<Rightarrow>
                    if \<not> ndfa_flag
                    then Inr (add_arc st state2 ai 1 m2, stack2, Some state2)
                    else make_automaton_alts g ndfa_flag reservs_matter st ai alts
                           (add_arc st state2 ai 1 m2, stack2, Some state2))))"

fun count_state_alts :: "globals \<Rightarrow> machine \<Rightarrow> nat \<Rightarrow> nat list \<Rightarrow> int \<Rightarrow> error + int" where
  "count_state_alts g m st [] n = Inr n"
| "count_state_alts g m st (alt # alts) n =
     (case intersected_state_reservs_p g m st alt of
        Inl e \<Rightarrow> Inl e
      | Inr True \<Rightarrow> count_state_alts g m st alts n
      | Inr False \<Rightarrow> count_state_alts g m st alts (n + 1))"

definition set_state_alts :: "nat \<Rightarrow> nat \<Rightarrow> nat \<Rightarrow> int \<Rightarrow> machine \<Rightarrow> machine" where
  "set_state_alts from_state to ai alts m =
     m\<lparr>state_nodes := (state_nodes m)
          [from_state := (state_nodes m ! from_state)
             \<lparr>first_out_arc :=
                map (\<lambda>a. if to_state a = to \<and> insn a = ai then a\<lparr>state_alts := alts\<rparr> else a)
                  (first_out_arc (state_nodes m ! from_state))\<rparr>]\<rparr>"

fun make_automaton_ainsns ::
  "globals \<Rightarrow> bool \<Rightarrow> nat \<Rightarrow> reserv_sets \<Rightarrow> nat \<Rightarrow> nat list
     \<Rightarrow> machine \<times> nat list \<times> nat option \<Rightarrow> error + machine \<times> nat list \<times> nat option" where
  "make_automaton_ainsns g ndfa_flag advance_cycle_insn_decl reservs_matter st [] acc = Inr acc"
| "make_automaton_ainsns g ndfa_flag advance_cycle_insn_decl reservs_matter st (ai # ais)
     (m, state_stack, advance_cycle_ainsn) =
     (if first_insn_with_same_reservs (ainsn_list (the_automaton m) ! ai)
      then (if insn_reserv_decl (ainsn_list (the_automaton m) ! ai) \<noteq> advance_cycle_insn_decl
            then (case make_automaton_alts g ndfa_flag reservs_matter st ai
                         (alt_states (ainsn_list (the_automaton m) ! ai))
                         (m, state_stack, None) of
                    Inl e \<Rightarrow> Inl e
                  | Inr (m1, stack1, added_arc) \<Rightarrow>
                      (case added_arc of
                         Some state2 \<Rightarrow>
                           if \<not> ndfa_flag
                           then (case count_state_alts g m1 st
                                        (alt_states (ainsn_list (the_automaton m1) ! ai)) 0 of
                                   Inl e \<Rightarrow> Inl e
                                 | Inr n \<Rightarrow>
                                     make_automaton_ainsns g ndfa_flag advance_cycle_insn_decl
                                       reservs_matter st ais
                                       (set_state_alts st state2 ai n m1, stack1,
                                        advance_cycle_ainsn))
                           else make_automaton_ainsns g ndfa_flag advance_cycle_insn_decl
                                  reservs_matter st ais (m1, stack1, advance_cycle_ainsn)
                       | None \<Rightarrow>
                           make_automaton_ainsns g ndfa_flag advance_cycle_insn_decl
                             reservs_matter st ais (m1, stack1, advance_cycle_ainsn)))
            else make_automaton_ainsns g ndfa_flag advance_cycle_insn_decl reservs_matter st ais
                   (m, state_stack, Some ai))
      else make_automaton_ainsns g ndfa_flag advance_cycle_insn_decl reservs_matter st ais
             (m, state_stack, advance_cycle_ainsn))"

fun make_automaton_loop ::
  "nat \<Rightarrow> globals \<Rightarrow> bool \<Rightarrow> nat \<Rightarrow> reserv_sets \<Rightarrow> machine \<times> nat list
     \<Rightarrow> (error + machine) option" where
  "make_automaton_loop n g ndfa_flag advance_cycle_insn_decl reservs_matter (m, state_stack) =
     (if state_stack = [] then Some (Inr m)
      else (case n of
              0 \<Rightarrow> None
            | Suc n' \<Rightarrow>
               (case make_automaton_ainsns g ndfa_flag advance_cycle_insn_decl reservs_matter
                       (last state_stack) [0 ..< length (ainsn_list (the_automaton m))]
                       (m, butlast state_stack, None) of
                  Inl e \<Rightarrow> Some (Inl e)
                | Inr (m1, stack1, advance_cycle_ainsn) \<Rightarrow>
                   (case state_shift g (last state_stack) reservs_matter m1 of
                      Inl e \<Rightarrow> Some (Inl e)
                    | Inr (state2, m2) \<Rightarrow>
                       (case push_for_NDFA state2 (m2, stack1) of
                          (m3, stack3) \<Rightarrow>
                            (case advance_cycle_ainsn of
                               None \<Rightarrow> Some (Inl Abort)
                             | Some ai \<Rightarrow>
                                 make_automaton_loop n' g ndfa_flag advance_cycle_insn_decl
                                   reservs_matter
                                   (add_arc (last state_stack) state2 ai 1 m3, stack3)))))))"

definition make_automaton ::
  "nat \<Rightarrow> globals \<Rightarrow> bool \<Rightarrow> nat \<Rightarrow> machine \<Rightarrow> (error + machine) option" where
  "make_automaton n g ndfa_flag advance_cycle_insn_decl m =
     (case form_reservs_matter g (the_automaton m) of
        Inl e \<Rightarrow> Some (Inl e)
      | Inr reservs_matter \<Rightarrow>
         (case get_free_state g True m of
            Inl e \<Rightarrow> Some (Inl e)
          | Inr (st, m1) \<Rightarrow>
             (case insert_state st m1 of
                (start, m2) \<Rightarrow>
                  make_automaton_loop n g ndfa_flag advance_cycle_insn_decl reservs_matter
                    (m2\<lparr>the_automaton := (the_automaton m2)\<lparr>start_state := start\<rparr>,
                        state_nodes := (state_nodes m2)
                          [start := (state_nodes m2 ! start)
                             \<lparr>it_was_placed_in_stack_for_NDFA_forming := True\<rparr>]\<rparr>,
                     [start]))))"

text \<open>
  \<^verbatim>\<open>form_arcs_marked_by_insn\<close> puts each arc of the state in front of the list of its
  instruction, so the list of an instruction holds its arcs in reverse.
\<close>

definition form_arcs_marked_by_insn :: "machine \<Rightarrow> nat \<Rightarrow> nat \<Rightarrow> arc list" where
  "form_arcs_marked_by_insn m st insn_decl =
     rev (filter (\<lambda>a. insn_reserv_decl (ainsn_list (the_automaton m) ! insn a) = insn_decl)
            (first_out_arc (state_nodes m ! st)))"

text \<open>
  \<^verbatim>\<open>create_composed_state\<close>.  The alt states of the composed state are collected in
  front of each other; a component that is itself composed is an abort.  The arcs
  of the components are added to a new composed state.  Then the first arc of the
  list is redirected to the composed state, the other arcs of the list are removed
  from the original state and counted, and the count becomes the \<open>state_alts\<close> of
  the first arc.
\<close>

fun composed_alt_states :: "state list \<Rightarrow> arc list \<Rightarrow> nat list \<Rightarrow> error + nat list" where
  "composed_alt_states sts [] curr_alt_state = Inr curr_alt_state"
| "composed_alt_states sts (curr_arc # arcs) curr_alt_state =
     (if component_states (sts ! to_state curr_arc) = []
      then composed_alt_states sts arcs (to_state curr_arc # curr_alt_state)
      else if list_ex (\<lambda>s. component_states (sts ! s) \<noteq> [])
                (component_states (sts ! to_state curr_arc))
      then Inl Abort
      else composed_alt_states sts arcs
             (rev (component_states (sts ! to_state curr_arc)) @ curr_alt_state))"

definition add_component_arcs :: "nat \<Rightarrow> machine \<Rightarrow> machine" where
  "add_component_arcs st m =
     fold (\<lambda>component m1.
             fold (\<lambda>curr_arc m2. add_arc st (to_state curr_arc) (insn curr_arc) 1 m2)
               (first_out_arc (state_nodes m1 ! component)) m1)
       (component_states (state_nodes m ! st)) m"

definition redirect_arcs :: "nat \<Rightarrow> arc list \<Rightarrow> nat \<Rightarrow> machine \<Rightarrow> machine" where
  "redirect_arcs original_state arcs_marked_by_insn st m =
     m\<lparr>state_nodes := (state_nodes m)
          [original_state := (state_nodes m ! original_state)
             \<lparr>first_out_arc :=
                map (\<lambda>a. if a = hd arcs_marked_by_insn
                          then a\<lparr>to_state := st,
                                 state_alts := int (length (tl arcs_marked_by_insn))\<rparr>
                          else a)
                  (filter (\<lambda>a. a \<notin> set (tl arcs_marked_by_insn))
                     (first_out_arc (state_nodes m ! original_state)))\<rparr>]\<rparr>"

definition push_for_DFA ::
  "nat \<Rightarrow> bool \<Rightarrow> machine \<times> nat list \<Rightarrow> machine \<times> nat list \<times> bool" where
  "push_for_DFA st new_state_p ms =
     (case ms of (m, state_stack) \<Rightarrow>
        if \<not> it_was_placed_in_stack_for_DFA_forming (state_nodes m ! st)
        then (m\<lparr>state_nodes := (state_nodes m)
                   [st := (state_nodes m ! st)
                      \<lparr>it_was_placed_in_stack_for_DFA_forming := True\<rparr>]\<rparr>,
              state_stack @ [st], new_state_p)
        else (m, state_stack, new_state_p))"

definition create_composed_state ::
  "globals \<Rightarrow> bool \<Rightarrow> nat \<Rightarrow> arc list \<Rightarrow> machine \<times> nat list
     \<Rightarrow> error + machine \<times> nat list \<times> bool" where
  "create_composed_state g ndfa_flag original_state arcs_marked_by_insn ms =
     (case ms of (m, state_stack) \<Rightarrow>
        if arcs_marked_by_insn = [] then Inr (m, state_stack, False)
        else if tl arcs_marked_by_insn = []
        then Inr (push_for_DFA (to_state (hd arcs_marked_by_insn)) False (m, state_stack))
        else if \<not> ndfa_flag then Inl Abort
        else
          (case get_free_state g False m of
             Inl e \<Rightarrow> Inl e
           | Inr (st, m1) \<Rightarrow>
              (case composed_alt_states (state_nodes m1) arcs_marked_by_insn [] of
                 Inl e \<Rightarrow> Inl e
               | Inr curr_alt_state \<Rightarrow>
                  (let canonical_alt_states_list =
                         uniq_sort_alt_states (state_nodes m1) curr_alt_state
                   in if tl canonical_alt_states_list = []
                      then Inr (push_for_DFA (hd canonical_alt_states_list) False
                                  (free_state st m1, state_stack))
                      else
                        (case insert_state st
                                (m1\<lparr>state_nodes := (state_nodes m1)
                                      [st := (state_nodes m1 ! st)
                                         \<lparr>component_states := canonical_alt_states_list\<rparr>]\<rparr>) of
                           (state_in_table, m2) \<Rightarrow>
                             if state_in_table \<noteq> st
                             then (if \<not> it_was_placed_in_stack_for_DFA_forming
                                          (state_nodes m2 ! state_in_table)
                                   then Inl Abort
                                   else Inr (push_for_DFA state_in_table False
                                               (redirect_arcs original_state arcs_marked_by_insn
                                                  state_in_table (free_state st m2),
                                                state_stack)))
                             else (if it_was_placed_in_stack_for_DFA_forming (state_nodes m2 ! st)
                                   then Inl Abort
                                   else Inr (push_for_DFA st True
                                               (redirect_arcs original_state arcs_marked_by_insn
                                                  st (add_component_arcs st m2),
                                                state_stack))))))))"

text \<open>
  \<^verbatim>\<open>NDFA_to_DFA\<close>: the loop over the declarations for one state, with the lists
  formed by \<^verbatim>\<open>form_arcs_marked_by_insn\<close> before it, and the loop over the state stack.
\<close>

fun NDFA_to_DFA_decls ::
  "globals \<Rightarrow> bool \<Rightarrow> decl list \<Rightarrow> nat \<Rightarrow> (nat \<Rightarrow> arc list) \<Rightarrow> nat list
     \<Rightarrow> machine \<times> nat list \<Rightarrow> error + machine \<times> nat list" where
  "NDFA_to_DFA_decls g ndfa_flag ds st marked [] ms = Inr ms"
| "NDFA_to_DFA_decls g ndfa_flag ds st marked (i # is) ms =
     (case ds ! i of
        dm_insn_reserv d \<Rightarrow>
          (case create_composed_state g ndfa_flag st (marked i) ms of
             Inl e \<Rightarrow> Inl e
           | Inr (m1, stack1, new_state_p) \<Rightarrow>
               NDFA_to_DFA_decls g ndfa_flag ds st marked is (m1, stack1))
      | _ \<Rightarrow> NDFA_to_DFA_decls g ndfa_flag ds st marked is ms)"

fun NDFA_to_DFA_loop ::
  "nat \<Rightarrow> globals \<Rightarrow> bool \<Rightarrow> decl list \<Rightarrow> machine \<times> nat list \<Rightarrow> (error + machine) option" where
  "NDFA_to_DFA_loop n g ndfa_flag ds (m, state_stack) =
     (if state_stack = [] then Some (Inr m)
      else (case n of
              0 \<Rightarrow> None
            | Suc n' \<Rightarrow>
               (case NDFA_to_DFA_decls g ndfa_flag ds (last state_stack)
                       (form_arcs_marked_by_insn m (last state_stack)) [0 ..< length ds]
                       (m, butlast state_stack) of
                  Inl e \<Rightarrow> Some (Inl e)
                | Inr ms \<Rightarrow> NDFA_to_DFA_loop n' g ndfa_flag ds ms)))"

definition NDFA_to_DFA ::
  "nat \<Rightarrow> globals \<Rightarrow> bool \<Rightarrow> decl list \<Rightarrow> machine \<Rightarrow> (error + machine) option" where
  "NDFA_to_DFA n g ndfa_flag ds m =
     NDFA_to_DFA_loop n g ndfa_flag ds
       (m\<lparr>state_nodes := (state_nodes m)
            [start_state (the_automaton m) :=
               (state_nodes m ! start_state (the_automaton m))
                 \<lparr>it_was_placed_in_stack_for_DFA_forming := True\<rparr>]\<rparr>,
        [start_state (the_automaton m)])"

text \<open>The arcs of a state that are marked by an instruction of the automaton.\<close>

definition out_arcs_on :: "machine \<Rightarrow> nat \<Rightarrow> nat \<Rightarrow> arc list" where
  "out_arcs_on m st ai = filter (\<lambda>a. insn a = ai) (first_out_arc (state_nodes m ! st))"

text \<open>
  The machine with one unit \<open>u\<close> and one instruction \<open>i\<close> with the alternatives
  \<^verbatim>\<open>u\<close> and \<^verbatim>\<open>u, u\<close>: the declarations are the unit, the instruction and the
  advance-cycle instruction; reservations have two cycles.  \<^verbatim>\<open>create_alt_states\<close> has
  formed the states of the alternatives, the last alternative first, and inserted
  them: state 0 reserves \<open>u\<close> on cycles 0 and 1, state 1 reserves \<open>u\<close> on cycle 0.
\<close>

definition one_unit_globals :: globals where
  "one_unit_globals =
     \<lparr>units_num = 1, query_units_num = 0, max_cycles_num = 2, sizeof_set_el = 4,
      units_array = [(plain_unit ''u'' 0)\<lparr>max_occ_cycle_num := 1, min_occ_cycle_num := 0\<rparr>],
      unit_excl_set_table = [[0, 0, 0, 0]],
      unit_presence_set_table = [[]],
      unit_final_presence_set_table = [[]],
      unit_absence_set_table = [[]],
      unit_final_absence_set_table = [[]]\<rparr>"

definition one_unit_decls :: "decl list" where
  "one_unit_decls =
     [dm_unit 0,
      dm_insn_reserv \<lparr>insn_reserv_decl.name = ''i'', default_latency = 1,
                      insn_reserv_decl.regexp =
                        Some (rm_oneof [rm_unit 0, rm_sequence [rm_unit 0, rm_unit 0]])\<rparr>,
      dm_insn_reserv \<lparr>insn_reserv_decl.name = ''$advance_cycle'', default_latency = 0,
                      insn_reserv_decl.regexp = None\<rparr>]"

definition one_unit_machine :: machine where
  "one_unit_machine =
     \<lparr>state_nodes =
        [(create_state_node 0)\<lparr>reservs := [1, 0, 0, 0, 1, 0, 0, 0]\<rparr>,
         (create_state_node 1)\<lparr>reservs := [1, 0, 0, 0, 0, 0, 0, 0]\<rparr>],
      state_table = [0, 1],
      free_states = [],
      curr_unique_state_num = 2,
      the_automaton =
        \<lparr>ainsn_list =
           [\<lparr>insn_reserv_decl = 1, alt_states = [1, 0], sorted_alt_states = [0, 1],
             first_insn_with_same_reservs = True, arc_exists_p = False,
             first_ainsn_with_given_equialence_num = False, insn_equiv_class_num = 0\<rparr>,
            \<lparr>insn_reserv_decl = 2, alt_states = [], sorted_alt_states = [],
             first_insn_with_same_reservs = True, arc_exists_p = False,
             first_ainsn_with_given_equialence_num = False, insn_equiv_class_num = 0\<rparr>],
         corresponding_automaton_decl = None, start_state = 0,
         insn_equiv_classes_num = 0, achieved_states_num = 0\<rparr>\<rparr>"


text \<open>
  The steps of \<^verbatim>\<open>build_automaton\<close> before the minimization: \<^verbatim>\<open>make_automaton\<close>, then
  \<^verbatim>\<open>NDFA_to_DFA\<close>.  For a result, the arcs of the start state that are marked by an
  instruction, and the components of a state.
\<close>

definition build_automaton ::
  "nat \<Rightarrow> globals \<Rightarrow> bool \<Rightarrow> nat \<Rightarrow> decl list \<Rightarrow> machine \<Rightarrow> (error + machine) option" where
  "build_automaton n g ndfa_flag advance_cycle_insn_decl ds m =
     (case make_automaton n g ndfa_flag advance_cycle_insn_decl m of
        Some (Inr m1) \<Rightarrow> NDFA_to_DFA n g ndfa_flag ds m1
      | r \<Rightarrow> r)"

definition start_arcs :: "(error + machine) option \<Rightarrow> nat \<Rightarrow> arc list option" where
  "start_arcs r ai =
     (case r of
        Some (Inr m) \<Rightarrow> Some (out_arcs_on m (start_state (the_automaton m)) ai)
      | _ \<Rightarrow> None)"

definition components_of :: "(error + machine) option \<Rightarrow> nat \<Rightarrow> nat list option" where
  "components_of r st =
     (case r of
        Some (Inr m) \<Rightarrow> Some (component_states (state_nodes m ! st))
      | _ \<Rightarrow> None)"


subsection \<open>Transformation of reservation expressions\<close>

text \<open>
  The results of the operands of a node, taken in order: the first one that is not
  a value decides.
\<close>

fun collect :: "(error + 'a) option list \<Rightarrow> (error + 'a list) option" where
  "collect [] = Some (Inr [])"
| "collect (x # xs) =
     (case x of
        None \<Rightarrow> None
      | Some (Inl e) \<Rightarrow> Some (Inl e)
      | Some (Inr v) \<Rightarrow>
          (case collect xs of
             None \<Rightarrow> None
           | Some (Inl e) \<Rightarrow> Some (Inl e)
           | Some (Inr vs) \<Rightarrow> Some (Inr (v # vs))))"

text \<open>
  \<^verbatim>\<open>copy_insn_regexp\<close> copies an expression and puts the expression of a reservation
  in the place of each reference to it.  The number bounds the references followed
  one inside the other.  A reservation without expression would make the function
  read through a null pointer, which is an error here, as is an index that is not
  the index of a reservation declaration.
\<close>

function copy_insn_regexp :: "nat \<Rightarrow> decl list \<Rightarrow> regexp \<Rightarrow> (error + regexp) option" where
  "copy_insn_regexp n ds (rm_reserv k) =
     (if k < length ds
      then (case ds ! k of
              dm_reserv d \<Rightarrow>
                (case reserv_decl.regexp d of
                   Some r \<Rightarrow> (case n of 0 \<Rightarrow> None | Suc n' \<Rightarrow> copy_insn_regexp n' ds r)
                 | None \<Rightarrow> Some (Inl Abort))
            | _ \<Rightarrow> Some (Inl Abort))
      else Some (Inl Abort))"
| "copy_insn_regexp n ds (rm_unit u) = Some (Inr (rm_unit u))"
| "copy_insn_regexp n ds (rm_repeat r repeat_num) =
     (case copy_insn_regexp n ds r of
        None \<Rightarrow> None
      | Some (Inl e) \<Rightarrow> Some (Inl e)
      | Some (Inr r') \<Rightarrow> Some (Inr (rm_repeat r' repeat_num)))"
| "copy_insn_regexp n ds (rm_sequence rs) =
     (case collect (map (copy_insn_regexp n ds) rs) of
        None \<Rightarrow> None
      | Some (Inl e) \<Rightarrow> Some (Inl e)
      | Some (Inr rs') \<Rightarrow> Some (Inr (rm_sequence rs')))"
| "copy_insn_regexp n ds (rm_allof rs) =
     (case collect (map (copy_insn_regexp n ds) rs) of
        None \<Rightarrow> None
      | Some (Inl e) \<Rightarrow> Some (Inl e)
      | Some (Inr rs') \<Rightarrow> Some (Inr (rm_allof rs')))"
| "copy_insn_regexp n ds (rm_oneof rs) =
     (case collect (map (copy_insn_regexp n ds) rs) of
        None \<Rightarrow> None
      | Some (Inl e) \<Rightarrow> Some (Inl e)
      | Some (Inr rs') \<Rightarrow> Some (Inr (rm_oneof rs')))"
| "copy_insn_regexp n ds rm_nothing = Some (Inr rm_nothing)"
  by pat_completeness auto
termination
  by (relation "measures [\<lambda>(n, ds, r). n, \<lambda>(n, ds, r). size r]")
     (auto simp: less_Suc_eq_le size_list_estimation')

definition copy_insn_regexps ::
  "nat \<Rightarrow> decl list \<Rightarrow> regexp list \<Rightarrow> (error + regexp list) option" where
  "copy_insn_regexps n ds rs = collect (map (copy_insn_regexp n ds) rs)"

text \<open>The mode of a node, and the operands of a sequence, allof or oneof node.\<close>

fun is_sequence :: "regexp \<Rightarrow> bool" where
  "is_sequence (rm_sequence rs) = True"
| "is_sequence r = False"

fun is_allof :: "regexp \<Rightarrow> bool" where
  "is_allof (rm_allof rs) = True"
| "is_allof r = False"

fun is_oneof :: "regexp \<Rightarrow> bool" where
  "is_oneof (rm_oneof rs) = True"
| "is_oneof r = False"

fun is_unit_or_nothing :: "regexp \<Rightarrow> bool" where
  "is_unit_or_nothing (rm_unit u) = True"
| "is_unit_or_nothing rm_nothing = True"
| "is_unit_or_nothing r = False"

fun operands :: "regexp \<Rightarrow> regexp list" where
  "operands (rm_sequence rs) = rs"
| "operands (rm_allof rs) = rs"
| "operands (rm_oneof rs) = rs"
| "operands r = []"

text \<open>
  The transformations take the flag \<^verbatim>\<open>regexp_transformed_p\<close> and return it with the
  expression.  \<^verbatim>\<open>transform_1\<close> turns a repetition into a sequence of copies.
\<close>

definition transform_1 ::
  "nat \<Rightarrow> decl list \<Rightarrow> regexp \<Rightarrow> bool \<Rightarrow> (error + regexp \<times> bool) option" where
  "transform_1 n ds r regexp_transformed_p =
     (case r of
        rm_repeat operand repeat_num \<Rightarrow>
          if repeat_num \<le> 1 then Some (Inl Abort)
          else (case copy_insn_regexps n ds (replicate (nat repeat_num) operand) of
                  None \<Rightarrow> None
                | Some (Inl e) \<Rightarrow> Some (Inl e)
                | Some (Inr rs) \<Rightarrow> Some (Inr (rm_sequence rs, True)))
      | _ \<Rightarrow> Some (Inr (r, regexp_transformed_p)))"

text \<open>
  \<^verbatim>\<open>transform_2\<close> puts the operands of the first operand that has the mode of the
  node in the place of that operand.  The three branches of the source differ in
  the mode only; \<open>flatten_operands\<close> is the part after the search, which has found the
  index of that operand.
\<close>

definition flatten_operands ::
  "nat \<Rightarrow> decl list \<Rightarrow> (regexp \<Rightarrow> bool) \<Rightarrow> regexp list \<Rightarrow> (error + regexp list) option" where
  "flatten_operands n ds same_mode rs =
     (let index = length (takeWhile (\<lambda>r. \<not> same_mode r) rs);
          nested = rs ! index
      in if length (operands nested) \<le> 1 \<or> length rs \<le> 1 then Some (Inl Abort)
         else copy_insn_regexps n ds (take index rs @ operands nested @ drop (Suc index) rs))"

definition transform_2 ::
  "nat \<Rightarrow> decl list \<Rightarrow> regexp \<Rightarrow> bool \<Rightarrow> (error + regexp \<times> bool) option" where
  "transform_2 n ds r regexp_transformed_p =
     (case r of
        rm_sequence rs \<Rightarrow>
          if list_ex is_sequence rs
          then (case flatten_operands n ds is_sequence rs of
                  None \<Rightarrow> None
                | Some (Inl e) \<Rightarrow> Some (Inl e)
                | Some (Inr rs') \<Rightarrow> Some (Inr (rm_sequence rs', True)))
          else Some (Inr (r, regexp_transformed_p))
      | rm_allof rs \<Rightarrow>
          if list_ex is_allof rs
          then (case flatten_operands n ds is_allof rs of
                  None \<Rightarrow> None
                | Some (Inl e) \<Rightarrow> Some (Inl e)
                | Some (Inr rs') \<Rightarrow> Some (Inr (rm_allof rs', True)))
          else Some (Inr (r, regexp_transformed_p))
      | rm_oneof rs \<Rightarrow>
          if list_ex is_oneof rs
          then (case flatten_operands n ds is_oneof rs of
                  None \<Rightarrow> None
                | Some (Inl e) \<Rightarrow> Some (Inl e)
                | Some (Inr rs') \<Rightarrow> Some (Inr (rm_oneof rs', True)))
          else Some (Inr (r, regexp_transformed_p))
      | _ \<Rightarrow> Some (Inr (r, regexp_transformed_p)))"

text \<open>
  \<^verbatim>\<open>transform_3\<close>.  For a sequence or allof node with a oneof operand, the result is
  a oneof node with one copy of the node for each alternative, the alternative in
  the place of the oneof operand.  For an allof node all of whose operands are
  sequences, units or \<^verbatim>\<open>nothing\<close>, with a sequence among them, the result is the
  sequence whose \<open>i\<close>-th element joins the \<open>i\<close>-th elements of the sequences (and,
  for \<open>i = 0\<close>, the units and \<^verbatim>\<open>nothing\<close>); the loop that looks for the longest
  sequence gives up at an operand of another mode.
\<close>

definition distribute_oneof ::
  "nat \<Rightarrow> decl list \<Rightarrow> (regexp list \<Rightarrow> regexp) \<Rightarrow> regexp list \<Rightarrow> (error + regexp) option" where
  "distribute_oneof n ds node rs =
     (let oneof_index = length (takeWhile (\<lambda>r. \<not> is_oneof r) rs);
          oneof = rs ! oneof_index
      in if length (operands oneof) \<le> 1 \<or> length rs \<le> 1 then Some (Inl Abort)
         else (case collect
                      (map (\<lambda>alt. copy_insn_regexps n ds
                                     (take oneof_index rs @ [alt] @ drop (Suc oneof_index) rs))
                         (operands oneof)) of
                 None \<Rightarrow> None
               | Some (Inl e) \<Rightarrow> Some (Inl e)
               | Some (Inr rss) \<Rightarrow> Some (Inr (rm_oneof (map node rss)))))"

fun max_seq_length_loop :: "regexp list \<Rightarrow> nat \<Rightarrow> nat" where
  "max_seq_length_loop [] max_seq_length = max_seq_length"
| "max_seq_length_loop (r # rs) max_seq_length =
     (if is_sequence r
      then max_seq_length_loop rs
             (if max_seq_length < length (operands r) then length (operands r)
              else max_seq_length)
      else if \<not> is_unit_or_nothing r then 0
      else max_seq_length_loop rs max_seq_length)"

definition allof_operands_at :: "regexp list \<Rightarrow> nat \<Rightarrow> regexp list" where
  "allof_operands_at rs i =
     concat (map (\<lambda>r. if is_sequence r \<and> i < length (operands r) then [operands r ! i]
                      else if i = 0 \<and> is_unit_or_nothing r then [r]
                      else []) rs)"

definition sequence_of_allofs :: "regexp list \<Rightarrow> nat \<Rightarrow> regexp" where
  "sequence_of_allofs rs max_seq_length =
     rm_sequence
       (map (\<lambda>i. if length (allof_operands_at rs i) = 1 then last (allof_operands_at rs i)
                 else rm_allof (allof_operands_at rs i))
          [0 ..< max_seq_length])"

definition transform_3 ::
  "nat \<Rightarrow> decl list \<Rightarrow> regexp \<Rightarrow> bool \<Rightarrow> (error + regexp \<times> bool) option" where
  "transform_3 n ds r regexp_transformed_p =
     (case r of
        rm_sequence rs \<Rightarrow>
          if list_ex is_oneof rs
          then (case distribute_oneof n ds rm_sequence rs of
                  None \<Rightarrow> None
                | Some (Inl e) \<Rightarrow> Some (Inl e)
                | Some (Inr r') \<Rightarrow> Some (Inr (r', True)))
          else Some (Inr (r, regexp_transformed_p))
      | rm_allof rs \<Rightarrow>
          (case (if list_ex is_oneof rs
                 then (case distribute_oneof n ds rm_allof rs of
                         None \<Rightarrow> None
                       | Some (Inl e) \<Rightarrow> Some (Inl e)
                       | Some (Inr r') \<Rightarrow> Some (Inr (r', True)))
                 else Some (Inr (r, regexp_transformed_p))) of
             None \<Rightarrow> None
           | Some (Inl e) \<Rightarrow> Some (Inl e)
           | Some (Inr (r1, p1)) \<Rightarrow>
               (let max_seq_length =
                      (if is_allof r1 then max_seq_length_loop (operands r1) 0 else 0)
                in if max_seq_length \<noteq> 0
                   then (if max_seq_length = 1 \<or> length (operands r1) \<le> 1
                         then Some (Inl Abort)
                         else Some (Inr (sequence_of_allofs (operands r1) max_seq_length, True)))
                   else Some (Inr (r1, p1))))
      | _ \<Rightarrow> Some (Inr (r, regexp_transformed_p)))"

text \<open>
  \<^verbatim>\<open>regexp_transform_func\<close> transforms the operands of a node in order, then the node;
  a reservation node is an abort.
\<close>

function regexp_transform_func ::
  "(regexp \<Rightarrow> bool \<Rightarrow> (error + regexp \<times> bool) option) \<Rightarrow> regexp \<Rightarrow> bool
     \<Rightarrow> (error + regexp \<times> bool) option" where
  "regexp_transform_func func (rm_sequence rs) p =
     (case fold (\<lambda>r acc. case acc of
                    None \<Rightarrow> None
                  | Some (Inl e) \<Rightarrow> Some (Inl e)
                  | Some (Inr (rs', p')) \<Rightarrow>
                      (case regexp_transform_func func r p' of
                         None \<Rightarrow> None
                       | Some (Inl e) \<Rightarrow> Some (Inl e)
                       | Some (Inr (r', p'')) \<Rightarrow> Some (Inr (rs' @ [r'], p''))))
             rs (Some (Inr ([], p))) of
        None \<Rightarrow> None
      | Some (Inl e) \<Rightarrow> Some (Inl e)
      | Some (Inr (rs', p')) \<Rightarrow> func (rm_sequence rs') p')"
| "regexp_transform_func func (rm_allof rs) p =
     (case fold (\<lambda>r acc. case acc of
                    None \<Rightarrow> None
                  | Some (Inl e) \<Rightarrow> Some (Inl e)
                  | Some (Inr (rs', p')) \<Rightarrow>
                      (case regexp_transform_func func r p' of
                         None \<Rightarrow> None
                       | Some (Inl e) \<Rightarrow> Some (Inl e)
                       | Some (Inr (r', p'')) \<Rightarrow> Some (Inr (rs' @ [r'], p''))))
             rs (Some (Inr ([], p))) of
        None \<Rightarrow> None
      | Some (Inl e) \<Rightarrow> Some (Inl e)
      | Some (Inr (rs', p')) \<Rightarrow> func (rm_allof rs') p')"
| "regexp_transform_func func (rm_oneof rs) p =
     (case fold (\<lambda>r acc. case acc of
                    None \<Rightarrow> None
                  | Some (Inl e) \<Rightarrow> Some (Inl e)
                  | Some (Inr (rs', p')) \<Rightarrow>
                      (case regexp_transform_func func r p' of
                         None \<Rightarrow> None
                       | Some (Inl e) \<Rightarrow> Some (Inl e)
                       | Some (Inr (r', p'')) \<Rightarrow> Some (Inr (rs' @ [r'], p''))))
             rs (Some (Inr ([], p))) of
        None \<Rightarrow> None
      | Some (Inl e) \<Rightarrow> Some (Inl e)
      | Some (Inr (rs', p')) \<Rightarrow> func (rm_oneof rs') p')"
| "regexp_transform_func func (rm_repeat r repeat_num) p =
     (case regexp_transform_func func r p of
        None \<Rightarrow> None
      | Some (Inl e) \<Rightarrow> Some (Inl e)
      | Some (Inr (r', p')) \<Rightarrow> func (rm_repeat r' repeat_num) p')"
| "regexp_transform_func func (rm_unit u) p = func (rm_unit u) p"
| "regexp_transform_func func rm_nothing p = func rm_nothing p"
| "regexp_transform_func func (rm_reserv k) p = Some (Inl Abort)"
  by pat_completeness auto
termination
  by (relation "measure (\<lambda>(func, r, p). size r)") (auto simp: less_Suc_eq_le size_list_estimation')

text \<open>
  \<^verbatim>\<open>transform_regexp\<close>: one traversal with \<^verbatim>\<open>transform_1\<close>, then rounds of a traversal
  with \<^verbatim>\<open>transform_2\<close> and one with \<^verbatim>\<open>transform_3\<close>, until a round leaves the flag
  zero.  The first number bounds the rounds.  \<^verbatim>\<open>transform_insn_regexps\<close> applies it to
  the copy of the expression of an instruction.
\<close>

fun transform_regexp_loop ::
  "nat \<Rightarrow> nat \<Rightarrow> decl list \<Rightarrow> regexp \<Rightarrow> (error + regexp) option" where
  "transform_regexp_loop 0 n ds r = None"
| "transform_regexp_loop (Suc rounds) n ds r =
     (case regexp_transform_func (transform_2 n ds) r False of
        None \<Rightarrow> None
      | Some (Inl e) \<Rightarrow> Some (Inl e)
      | Some (Inr (r2, p2)) \<Rightarrow>
          (case regexp_transform_func (transform_3 n ds) r2 p2 of
             None \<Rightarrow> None
           | Some (Inl e) \<Rightarrow> Some (Inl e)
           | Some (Inr (r3, p3)) \<Rightarrow>
               if p3 then transform_regexp_loop rounds n ds r3 else Some (Inr r3)))"

definition transform_regexp ::
  "nat \<Rightarrow> nat \<Rightarrow> decl list \<Rightarrow> regexp \<Rightarrow> bool \<Rightarrow> (error + regexp) option" where
  "transform_regexp rounds n ds r regexp_transformed_p =
     (case regexp_transform_func (transform_1 n ds) r regexp_transformed_p of
        None \<Rightarrow> None
      | Some (Inl e) \<Rightarrow> Some (Inl e)
      | Some (Inr (r1, p1)) \<Rightarrow> transform_regexp_loop rounds n ds r1)"

definition transform_insn_regexp ::
  "nat \<Rightarrow> nat \<Rightarrow> decl list \<Rightarrow> regexp \<Rightarrow> bool \<Rightarrow> (error + regexp) option" where
  "transform_insn_regexp rounds n ds r regexp_transformed_p =
     (case copy_insn_regexp n ds r of
        None \<Rightarrow> None
      | Some (Inl e) \<Rightarrow> Some (Inl e)
      | Some (Inr r0) \<Rightarrow> transform_regexp rounds n ds r0 regexp_transformed_p)"

text \<open>
  The shape of a transformed expression: the operands of an allof node are units or
  \<^verbatim>\<open>nothing\<close>; the operands of a sequence node are such allof nodes, units or
  \<^verbatim>\<open>nothing\<close>; the operands of a oneof node are such sequence nodes, allof nodes,
  units or \<^verbatim>\<open>nothing\<close>; and a oneof node is the whole expression.
\<close>

fun allof_shape :: "regexp \<Rightarrow> bool" where
  "allof_shape (rm_allof rs) = list_all is_unit_or_nothing rs"
| "allof_shape r = is_unit_or_nothing r"

fun sequence_shape :: "regexp \<Rightarrow> bool" where
  "sequence_shape (rm_sequence rs) = list_all allof_shape rs"
| "sequence_shape r = allof_shape r"

fun oneof_shape :: "regexp \<Rightarrow> bool" where
  "oneof_shape (rm_oneof rs) = list_all sequence_shape rs"
| "oneof_shape r = sequence_shape r"

text \<open>
  Whether an expression has a reservation node, a repetition node, or a oneof node
  below a sequence or allof node.
\<close>

fun has_reserv :: "regexp \<Rightarrow> bool" where
  "has_reserv (rm_reserv k) = True"
| "has_reserv (rm_unit u) = False"
| "has_reserv rm_nothing = False"
| "has_reserv (rm_repeat r repeat_num) = has_reserv r"
| "has_reserv (rm_sequence rs) = list_ex has_reserv rs"
| "has_reserv (rm_allof rs) = list_ex has_reserv rs"
| "has_reserv (rm_oneof rs) = list_ex has_reserv rs"

fun has_repeat :: "regexp \<Rightarrow> bool" where
  "has_repeat (rm_reserv k) = False"
| "has_repeat (rm_unit u) = False"
| "has_repeat rm_nothing = False"
| "has_repeat (rm_repeat r repeat_num) = True"
| "has_repeat (rm_sequence rs) = list_ex has_repeat rs"
| "has_repeat (rm_allof rs) = list_ex has_repeat rs"
| "has_repeat (rm_oneof rs) = list_ex has_repeat rs"

fun has_oneof :: "regexp \<Rightarrow> bool" where
  "has_oneof (rm_reserv k) = False"
| "has_oneof (rm_unit u) = False"
| "has_oneof rm_nothing = False"
| "has_oneof (rm_repeat r repeat_num) = has_oneof r"
| "has_oneof (rm_sequence rs) = list_ex has_oneof rs"
| "has_oneof (rm_allof rs) = list_ex has_oneof rs"
| "has_oneof (rm_oneof rs) = True"

fun oneof_below_sequence_or_allof :: "regexp \<Rightarrow> bool" where
  "oneof_below_sequence_or_allof (rm_reserv k) = False"
| "oneof_below_sequence_or_allof (rm_unit u) = False"
| "oneof_below_sequence_or_allof rm_nothing = False"
| "oneof_below_sequence_or_allof (rm_repeat r repeat_num) = oneof_below_sequence_or_allof r"
| "oneof_below_sequence_or_allof (rm_sequence rs) = list_ex has_oneof rs"
| "oneof_below_sequence_or_allof (rm_allof rs) = list_ex has_oneof rs"
| "oneof_below_sequence_or_allof (rm_oneof rs) = list_ex oneof_below_sequence_or_allof rs"

text \<open>
  Declarations with a unit, the reservation \<^verbatim>\<open>r := u | u\<close> and an instruction with
  the expression \<^verbatim>\<open>(r + u) * 2, nothing\<close>.
\<close>

definition repeat_decls :: "decl list" where
  "repeat_decls =
     [dm_unit 0,
      dm_reserv \<lparr>reserv_decl.name = ''r'',
                 reserv_decl.regexp = Some (rm_oneof [rm_unit 0, rm_unit 0]),
                 loop_pass_num = 0\<rparr>,
      dm_insn_reserv \<lparr>insn_reserv_decl.name = ''i'', default_latency = 1,
                      insn_reserv_decl.regexp =
                        Some (rm_sequence
                                [rm_repeat (rm_allof [rm_reserv 1, rm_unit 0]) 2,
                                 rm_nothing])\<rparr>]"


text \<open>
  For the proof.  No sequence node is empty (the parser makes a sequence node only
  for two or more elements), for an expression and for the reservations of a
  description; an expression without reservation and repetition nodes whose
  sequence nodes are not empty; and an expression in which \<^verbatim>\<open>transform_2\<close>, or
  \<^verbatim>\<open>transform_3\<close>, finds nothing to do at any node.
\<close>

fun sequences_nonempty :: "regexp \<Rightarrow> bool" where
  "sequences_nonempty (rm_sequence rs) = (rs \<noteq> [] \<and> list_all sequences_nonempty rs)"
| "sequences_nonempty (rm_allof rs) = list_all sequences_nonempty rs"
| "sequences_nonempty (rm_oneof rs) = list_all sequences_nonempty rs"
| "sequences_nonempty (rm_repeat r repeat_num) = sequences_nonempty r"
| "sequences_nonempty r = True"

definition reservations_nonempty :: "decl list \<Rightarrow> bool" where
  "reservations_nonempty ds =
     list_all (\<lambda>decl. case decl of
                         dm_reserv d \<Rightarrow>
                           (case reserv_decl.regexp d of
                              Some r \<Rightarrow> sequences_nonempty r
                            | None \<Rightarrow> True)
                       | _ \<Rightarrow> True) ds"

fun plain :: "regexp \<Rightarrow> bool" where
  "plain (rm_sequence rs) = (rs \<noteq> [] \<and> list_all plain rs)"
| "plain (rm_allof rs) = list_all plain rs"
| "plain (rm_oneof rs) = list_all plain rs"
| "plain (rm_unit u) = True"
| "plain rm_nothing = True"
| "plain r = False"

fun flat :: "regexp \<Rightarrow> bool" where
  "flat (rm_sequence rs) = (list_all flat rs \<and> \<not> list_ex is_sequence rs)"
| "flat (rm_allof rs) = (list_all flat rs \<and> \<not> list_ex is_allof rs)"
| "flat (rm_oneof rs) = (list_all flat rs \<and> \<not> list_ex is_oneof rs)"
| "flat r = True"

fun distributed :: "regexp \<Rightarrow> bool" where
  "distributed (rm_sequence rs) = (list_all distributed rs \<and> \<not> list_ex is_oneof rs)"
| "distributed (rm_allof rs) =
     (list_all distributed rs \<and> \<not> list_ex is_oneof rs \<and> max_seq_length_loop rs 0 = 0)"
| "distributed (rm_oneof rs) = list_all distributed rs"
| "distributed r = True"

section \<open>Verification\<close>

subsection \<open>Bit strings and the mask of reservations that matter\<close>

lemma TEST_SET_BIT:
  "n div 8 < length bs \<Longrightarrow> TEST_BIT (SET_BIT bs n) m = (m = n \<or> TEST_BIT bs m)"
proof -
  assume a: "n div 8 < length bs"
  have eq: "m = n \<longleftrightarrow> (m div 8 = n div 8 \<and> m mod 8 = n mod 8)"
    by (metis div_mult_mod_eq)
  show ?thesis
  proof (cases "m div 8 = n div 8")
    case True
    then show ?thesis using a
      by (auto simp: TEST_BIT_def SET_BIT_def CHAR_BIT_def eq bit_simps)
  next
    case False
    then show ?thesis using a
      by (auto simp: TEST_BIT_def SET_BIT_def CHAR_BIT_def)
  qed
qed

lemma length_SET_BIT [simp]: "length (SET_BIT bs n) = length bs"
  by (simp add: SET_BIT_def)

lemma TEST_BIT_replicate0 [simp]: "n div 8 < k \<Longrightarrow> \<not> TEST_BIT (replicate k 0) n"
  by (simp add: TEST_BIT_def CHAR_BIT_def)

lemma round_up_ge: "0 < (w::nat) \<Longrightarrow> u \<le> ((u + w - 1) div w) * w"
proof -
  assume pos: "0 < w"
  have 1: "(u + w - 1) mod w < w" using pos by simp
  have 2: "((u + w - 1) div w) * w + (u + w - 1) mod w = u + w - 1" by simp
  show ?thesis using 1 2 pos by linarith
qed

lemma units_le_cycle_bits: "0 < sizeof_set_el g \<Longrightarrow> units_num g \<le> cycle_bits g"
  using round_up_ge [of "sizeof_set_el g * 8" "units_num g"]
  by (simp add: cycle_bits_def els_in_cycle_reserv_def CHAR_BIT_def mult.assoc)

lemma units_loop:
  assumes "cycle < max_cycles_num g"
    and "\<forall>un\<in>set uns. (cycle * cycle_bits g + un) div 8 < length r0"
  shows "\<exists>r. form_reservs_matter_units g a cycle uns r0 = Inr r \<and> length r = length r0
           \<and> (\<forall>n. TEST_BIT r n = (TEST_BIT r0 n
                 \<or> (\<exists>un\<in>set uns. n = cycle * cycle_bits g + un \<and> unit_matters g a cycle un)))"
  using assms
proof (induction uns arbitrary: r0)
  case Nil
  then show ?case by simp
next
  case (Cons un uns)
  show ?case
  proof (cases "unit_matters g a cycle un")
    case False
    then have "form_reservs_matter_units g a cycle (un # uns) r0
             = form_reservs_matter_units g a cycle uns r0"
      by (auto simp: unit_matters_def)
    moreover obtain r where "form_reservs_matter_units g a cycle uns r0 = Inr r"
      "length r = length r0"
      "\<forall>n. TEST_BIT r n = (TEST_BIT r0 n
                 \<or> (\<exists>un\<in>set uns. n = cycle * cycle_bits g + un \<and> unit_matters g a cycle un))"
      using Cons.IH [of r0] Cons.prems by auto
    ultimately show ?thesis using False by auto
  next
    case True
    define r1 where "r1 = SET_BIT r0 (cycle * cycle_bits g + un)"
    have s: "set_unit_reserv g r0 cycle un = Inr r1"
      using Cons.prems(1) by (simp add: set_unit_reserv_def r1_def cycle_bits_def mult.assoc)
    have step: "form_reservs_matter_units g a cycle (un # uns) r0
             = form_reservs_matter_units g a cycle uns r1"
      using True s by (auto simp: unit_matters_def)
    have len: "length r1 = length r0" by (simp add: r1_def)
    obtain r where r: "form_reservs_matter_units g a cycle uns r1 = Inr r"
      "length r = length r1"
      "\<forall>n. TEST_BIT r n = (TEST_BIT r1 n
                 \<or> (\<exists>un\<in>set uns. n = cycle * cycle_bits g + un \<and> unit_matters g a cycle un))"
      using Cons.IH [of r1] Cons.prems len by auto
    have t: "\<And>n. TEST_BIT r1 n = (n = cycle * cycle_bits g + un \<or> TEST_BIT r0 n)"
      unfolding r1_def using Cons.prems(2) by (intro TEST_SET_BIT) simp
    show ?thesis using r step len t True by auto
  qed
qed

lemma cycles_loop:
  assumes "\<forall>c\<in>set cs. c < max_cycles_num g" and "0 < sizeof_set_el g"
    and "length r0 = els_in_reservs g * sizeof_set_el g"
  shows "\<exists>r. form_reservs_matter_cycles g a cs r0 = Inr r \<and> length r = length r0
           \<and> (\<forall>n. TEST_BIT r n = (TEST_BIT r0 n
                 \<or> (\<exists>c\<in>set cs. \<exists>un<units_num g.
                        n = c * cycle_bits g + un \<and> unit_matters g a c un)))"
  using assms
proof (induction cs arbitrary: r0)
  case Nil
  then show ?case by simp
next
  case (Cons c cs)
  have c: "c < max_cycles_num g" using Cons.prems by simp
  have rng: "\<forall>un\<in>set [0 ..< units_num g]. (c * cycle_bits g + un) div 8 < length r0"
  proof
    fix un assume "un \<in> set [0 ..< units_num g]"
    then have "un < cycle_bits g" using units_le_cycle_bits [OF Cons.prems(2)] by simp
    then have "c * cycle_bits g + un < (c + 1) * cycle_bits g" by simp
    also have "\<dots> \<le> max_cycles_num g * cycle_bits g" using c by (intro mult_le_mono1) simp
    also have "\<dots> = length r0 * 8"
      using Cons.prems(3) by (simp add: cycle_bits_def els_in_reservs_def CHAR_BIT_def mult_ac)
    finally show "(c * cycle_bits g + un) div 8 < length r0" by simp
  qed
  obtain r1 where r1: "form_reservs_matter_units g a c [0 ..< units_num g] r0 = Inr r1"
    "length r1 = length r0"
    "\<forall>n. TEST_BIT r1 n = (TEST_BIT r0 n
        \<or> (\<exists>un\<in>set [0 ..< units_num g]. n = c * cycle_bits g + un \<and> unit_matters g a c un))"
    using units_loop [OF c rng] by blast
  obtain r where r: "form_reservs_matter_cycles g a cs r1 = Inr r" "length r = length r1"
    "\<forall>n. TEST_BIT r n = (TEST_BIT r1 n
                 \<or> (\<exists>c\<in>set cs. \<exists>un<units_num g.
                        n = c * cycle_bits g + un \<and> unit_matters g a c un))"
    using Cons.IH [of r1] Cons.prems r1(2) by auto
  have "form_reservs_matter_cycles g a (c # cs) r0 = Inr r" using r1(1) r(1) by simp
  moreover have "length r = length r0" using r1 r by simp
  moreover have "\<forall>n. TEST_BIT r n = (TEST_BIT r0 n
                 \<or> (\<exists>c\<in>set (c # cs). \<exists>un<units_num g.
                        n = c * cycle_bits g + un \<and> unit_matters g a c un))"
    using r(3) r1(3) by auto
  ultimately show ?case by blast
qed

lemma cycle_unit_unique:
  assumes "un < w" "un' < w" "c * w + un = c' * w + (un'::nat)"
  shows "c = c' \<and> un = un'"
proof -
  have 1: "(c * w + un) div w = c" using assms(1) by simp
  have 2: "(c' * w + un') div w = c'" using assms(2) by simp
  have "c = c'" using 1 2 assms(3) by metis
  then show ?thesis using assms(3) by simp
qed

lemma form_reservs_matter_bit:
  assumes "cycle < max_cycles_num g" and "un < units_num g" and "0 < sizeof_set_el g"
  shows "\<exists>m. form_reservs_matter g a = Inr m
           \<and> length m = els_in_reservs g * sizeof_set_el g
           \<and> test_unit_reserv g m cycle un = Inr (unit_matters g a cycle un)"
proof -
  let ?r0 = "alloc_empty_reserv_sets g"
  have len0: "length ?r0 = els_in_reservs g * sizeof_set_el g"
    by (simp add: alloc_empty_reserv_sets_def)
  obtain m where m: "form_reservs_matter_cycles g a [0 ..< max_cycles_num g] ?r0 = Inr m"
    "length m = length ?r0"
    "\<forall>n. TEST_BIT m n = (TEST_BIT ?r0 n
                 \<or> (\<exists>c\<in>set [0 ..< max_cycles_num g]. \<exists>un<units_num g.
                        n = c * cycle_bits g + un \<and> unit_matters g a c un))"
    using cycles_loop [of "[0 ..< max_cycles_num g]" g ?r0 a] assms(3) len0 by auto
  have w: "units_num g \<le> cycle_bits g" by (rule units_le_cycle_bits [OF assms(3)])
  let ?n = "cycle * cycle_bits g + un"
  have "?n < (cycle + 1) * cycle_bits g" using w assms(2) by simp
  also have "\<dots> \<le> max_cycles_num g * cycle_bits g" using assms(1) by (intro mult_le_mono1) simp
  also have "\<dots> = length ?r0 * 8"
    by (simp add: alloc_empty_reserv_sets_def cycle_bits_def els_in_reservs_def CHAR_BIT_def mult_ac)
  finally have "?n div 8 < length ?r0" by simp
  then have z: "\<not> TEST_BIT ?r0 ?n"
    by (simp add: alloc_empty_reserv_sets_def)
  have "TEST_BIT m ?n = unit_matters g a cycle un"
  proof
    assume "TEST_BIT m ?n"
    then obtain c' un' where c': "un' < units_num g" "?n = c' * cycle_bits g + un'"
      "unit_matters g a c' un'"
      using m(3) z by auto
    have "cycle = c' \<and> un = un'"
      using cycle_unit_unique [of un "cycle_bits g" un' cycle c'] c' w assms(2) by simp
    then show "unit_matters g a cycle un" using c' by simp
  next
    assume "unit_matters g a cycle un"
    then show "TEST_BIT m ?n" using m(3) assms by auto
  qed
  then have "test_unit_reserv g m cycle un = Inr (unit_matters g a cycle un)"
    using assms(1) by (simp add: test_unit_reserv_def cycle_bits_def mult.assoc)
  then show ?thesis using m len0 by (simp add: form_reservs_matter_def)
qed

lemma TEST_BIT_and:
  "n div 8 < length a \<Longrightarrow> length b = length a \<Longrightarrow>
   TEST_BIT (reserv_sets_and a b) n = (TEST_BIT a n \<and> TEST_BIT b n)"
  by (simp add: TEST_BIT_def reserv_sets_and_def CHAR_BIT_def bit_simps)

lemma TEST_BIT_or:
  "n div 8 < length a \<Longrightarrow> length b = length a \<Longrightarrow>
   TEST_BIT (reserv_sets_or a b) n = (TEST_BIT a n \<or> TEST_BIT b n)"
  by (simp add: TEST_BIT_def reserv_sets_or_def CHAR_BIT_def bit_simps)

text \<open>
  Claim C5, as amended.  For a unit of the automaton the mask \<^verbatim>\<open>reservs_matter\<close>
  keeps the bit of a cycle exactly when the cycle is at or after the unit's
  \<^verbatim>\<open>min_occ_cycle_num\<close>, or the unit is a query unit, or it occurs in an exclusion,
  presence or absence set; so a bit is pruned only on cycles before
  \<^verbatim>\<open>min_occ_cycle_num\<close>, and only for units that are neither queried nor in a set.
  Bits of units of other automata are never in the mask.  The reservation of the
  candidate successor built by \<^verbatim>\<open>states_union\<close> has a bit exactly when one of the two
  operands has it and the mask keeps it.
\<close>

theorem reservs_matter_keeps_from_min_occ_cycle:
  assumes "cycle < max_cycles_num g" and "un < units_num g" and "0 < sizeof_set_el g"
    and "length r1 = els_in_reservs g * sizeof_set_el g"
    and "length r2 = els_in_reservs g * sizeof_set_el g"
  shows "\<exists>m. form_reservs_matter g a = Inr m
     \<and> test_unit_reserv g m cycle un =
         Inr (automaton_decl (units_array g ! un) = corresponding_automaton_decl a
              \<and> (min_occ_cycle_num (units_array g ! un) \<le> int cycle
                 \<or> query_p (units_array g ! un) \<or> in_set_p (units_array g ! un)))
     \<and> test_unit_reserv g (states_union_reservs r1 r2 m) cycle un =
         Inr ((TEST_BIT r1 (cycle * cycle_bits g + un) \<or> TEST_BIT r2 (cycle * cycle_bits g + un))
              \<and> automaton_decl (units_array g ! un) = corresponding_automaton_decl a
              \<and> (min_occ_cycle_num (units_array g ! un) \<le> int cycle
                 \<or> query_p (units_array g ! un) \<or> in_set_p (units_array g ! un)))"
proof -
  obtain m where m: "form_reservs_matter g a = Inr m"
    "length m = els_in_reservs g * sizeof_set_el g"
    "test_unit_reserv g m cycle un = Inr (unit_matters g a cycle un)"
    using form_reservs_matter_bit [OF assms(1,2,3)] by blast
  let ?n = "cycle * cycle_bits g + un"
  have w: "units_num g \<le> cycle_bits g" by (rule units_le_cycle_bits [OF assms(3)])
  have "?n < (cycle + 1) * cycle_bits g" using w assms(2) by simp
  also have "\<dots> \<le> max_cycles_num g * cycle_bits g" using assms(1) by (intro mult_le_mono1) simp
  also have "\<dots> = length r1 * 8"
    using assms(4) by (simp add: cycle_bits_def els_in_reservs_def CHAR_BIT_def mult_ac)
  finally have rng: "?n div 8 < length r1" by simp
  have tm: "TEST_BIT m ?n = unit_matters g a cycle un"
    using m(3) assms(1) by (simp add: test_unit_reserv_def cycle_bits_def mult.assoc)
  have lo: "length (reserv_sets_or r1 r2) = length r1"
    using assms(4,5) by (simp add: reserv_sets_or_def)
  have "TEST_BIT (states_union_reservs r1 r2 m) ?n
        = ((TEST_BIT r1 ?n \<or> TEST_BIT r2 ?n) \<and> unit_matters g a cycle un)"
    unfolding states_union_reservs_def
    using rng lo assms(4,5) m(2) tm by (simp add: TEST_BIT_and TEST_BIT_or)
  then have "test_unit_reserv g (states_union_reservs r1 r2 m) cycle un
        = Inr ((TEST_BIT r1 ?n \<or> TEST_BIT r2 ?n) \<and> unit_matters g a cycle un)"
    using assms(1) by (simp add: test_unit_reserv_def cycle_bits_def mult.assoc)
  then show ?thesis using m(1,3) unfolding unit_matters_def by auto
qed

lemma form_reservs_matter_two_cycle:
  "form_reservs_matter two_cycle_globals anonymous_automaton = Inr [1, 0, 0, 0, 3, 0, 0, 0]"
  by code_simp

theorem reservs_matter_keeps_from_min_occ_cycle_witness:
  "\<exists>m. form_reservs_matter two_cycle_globals anonymous_automaton = Inr m
     \<and> test_unit_reserv two_cycle_globals m 0 1 = Inr False
     \<and> test_unit_reserv two_cycle_globals
          (states_union_reservs [2, 0, 0, 0, 0, 0, 0, 0] [0, 0, 0, 0, 0, 0, 0, 0] m) 0 1 = Inr False"
  using reservs_matter_keeps_from_min_occ_cycle
    [of 0 two_cycle_globals 1 "[2, 0, 0, 0, 0, 0, 0, 0]" "[0, 0, 0, 0, 0, 0, 0, 0]"
        anonymous_automaton]
  by (simp add: two_cycle_globals_def two_cycle_units_def anonymous_automaton_def
      els_in_reservs_def els_in_cycle_reserv_def CHAR_BIT_def)

text \<open>
  Claim C5 as stated fails: unit \<open>u\<close> is neither a query unit nor in any set, and
  cycle 1 is not before its \<^verbatim>\<open>min_occ_cycle_num\<close>, yet the mask keeps the bit
  instead of clearing it.
\<close>

theorem reservs_matter_prunes_from_min_occ_cycle_counterexample:
  "form_reservs_matter two_cycle_globals anonymous_automaton = Inr [1, 0, 0, 0, 3, 0, 0, 0]
   \<and> min_occ_cycle_num (units_array two_cycle_globals ! 1) \<le> 1
   \<and> \<not> query_p (units_array two_cycle_globals ! 1)
   \<and> \<not> in_set_p (units_array two_cycle_globals ! 1)
   \<and> test_unit_reserv two_cycle_globals [1, 0, 0, 0, 3, 0, 0, 0] 1 1 = Inr True"
  using form_reservs_matter_two_cycle
  by (simp add: two_cycle_globals_def two_cycle_units_def test_unit_reserv_def TEST_BIT_def
      els_in_cycle_reserv_def CHAR_BIT_def)

subsection \<open>First-cycle presence of query units\<close>








subsection \<open>Presence patterns in the checker\<close>

text \<open>
  Claim C7 asks that a presence pattern with the final flag unset is appended to the
  target unit's \<^verbatim>\<open>presence_list\<close> and leaves \<^verbatim>\<open>final_presence_list\<close> alone.  The
  code, run on \<^verbatim>\<open>presence_set "a" "b,c"\<close> (target \<open>a\<close>, the two one-unit patterns
  \<open>b\<close> and \<open>c\<close>, no diagnostics): the pattern \<open>c\<close> replaces the pattern \<open>b\<close> in
  \<^verbatim>\<open>presence_list\<close> instead of following it.  Run on \<^verbatim>\<open>presence_set "a" "c"\<close> after
  \<^verbatim>\<open>final_presence_set "a" "b"\<close>: the pattern \<open>c\<close> lands in \<^verbatim>\<open>final_presence_list\<close>
  and \<^verbatim>\<open>presence_list\<close> stays empty.
\<close>

theorem add_presence_absence_searches_final_presence_list:
  "presence_list (fst (add_presence_absence False [0] [[1], [2]] True False (three_units, [])) ! 0)
     = [[2]]
   \<and> final_presence_list
       (fst (add_presence_absence False [0] [[1], [2]] True False (three_units, [])) ! 0) = []
   \<and> snd (add_presence_absence False [0] [[1], [2]] True False (three_units, [])) = []
   \<and> presence_list
       (fst (add_presence_absence False [0] [[2]] True False
              (add_presence_absence False [0] [[1]] True True (three_units, []))) ! 0) = []
   \<and> final_presence_list
       (fst (add_presence_absence False [0] [[2]] True False
              (add_presence_absence False [0] [[1]] True True (three_units, []))) ! 0)
     = [[1], [2]]"
  by (simp add: three_units_def plain_unit_def link_copy_def searched_list_def)

subsection \<open>Maximal reservation length and the queue index\<close>












subsection \<open>Comb vectors\<close>

lemma form_full_vect_length [simp]:
  "length (form_full_vect classes s vect is full) = length full"
  by (induction "is" arbitrary: full) simp_all













subsection \<open>Cycles in reservation definitions\<close>

lemma decl_refs_clear [simp]: "decl_refs (clear_loop_pass_num x) = decl_refs x"
  by (cases x) (simp_all add: decl_refs_def)

lemma is_reserv_clear [simp]: "is_reserv (clear_loop_pass_num x) = is_reserv x"
  by (cases x) simp_all

lemma is_reserv_iff: "is_reserv x \<longleftrightarrow> (\<exists>d. x = dm_reserv d)"
  by (cases x) simp_all

lemma skel_length: "map clear_loop_pass_num ds' = map clear_loop_pass_num ds \<Longrightarrow> length ds' = length ds"
  by (metis length_map)

lemma skel_nth:
  assumes "map clear_loop_pass_num ds' = map clear_loop_pass_num ds" "k < length ds"
  shows "clear_loop_pass_num (ds' ! k) = clear_loop_pass_num (ds ! k)"
proof -
  have "length ds' = length ds" using assms(1) by (rule skel_length)
  then have "map clear_loop_pass_num ds' ! k = clear_loop_pass_num (ds' ! k)"
    "map clear_loop_pass_num ds ! k = clear_loop_pass_num (ds ! k)"
    using assms(2) by simp_all
  then show ?thesis using assms(1) by simp
qed

lemma skel_refs:
  assumes "map clear_loop_pass_num ds' = map clear_loop_pass_num ds" "k < length ds"
  shows "decl_refs (ds' ! k) = decl_refs (ds ! k)" "is_reserv (ds' ! k) = is_reserv (ds ! k)"
  using skel_nth [OF assms] by (metis decl_refs_clear, metis is_reserv_clear)

lemma skel_refers:
  assumes "map clear_loop_pass_num ds' = map clear_loop_pass_num ds"
  shows "refers ds' = refers ds"
  unfolding refers_def using skel_refs(1) [OF assms] skel_length [OF assms] by auto

lemma skel_linked_imp:
  assumes "map clear_loop_pass_num ds' = map clear_loop_pass_num ds" "linked ds"
  shows "linked ds'"
  unfolding linked_def is_reserv_iff [symmetric]
proof (intro allI impI ballI)
  fix i k assume i: "i < length ds'" and k: "k \<in> decl_refs (ds' ! i)"
  have l: "length ds' = length ds" using assms(1) by (rule skel_length)
  have "k \<in> decl_refs (ds ! i)" using skel_refs(1) [OF assms(1)] i k l by simp
  then have a: "k < length ds" "is_reserv (ds ! k)"
    using assms(2) i l unfolding linked_def is_reserv_iff [symmetric] by auto
  then show "k < length ds' \<and> is_reserv (ds' ! k)"
    using skel_refs(2) [OF assms(1) a(1)] l by simp
qed

lemma skel_linked:
  assumes "map clear_loop_pass_num ds' = map clear_loop_pass_num ds"
  shows "linked ds' = linked ds"
  using skel_linked_imp [OF assms] skel_linked_imp [OF assms [symmetric]] by blast

lemma skel_mark:
  assumes "k < length ds" "ds ! k = dm_reserv d"
  shows "map clear_loop_pass_num (ds[k := dm_reserv (d\<lparr>loop_pass_num := c\<rparr>)])
       = map clear_loop_pass_num ds"
  using assms by (simp add: list_eq_iff_nth_eq nth_list_update)

lemma skel_regexp:
  assumes "map clear_loop_pass_num ds' = map clear_loop_pass_num ds" "k < length ds"
    "ds ! k = dm_reserv d"
  shows "\<exists>d'. ds' ! k = dm_reserv d' \<and> reserv_decl.regexp d' = reserv_decl.regexp d
           \<and> reserv_decl.name d' = reserv_decl.name d"
proof -
  have e: "clear_loop_pass_num (ds' ! k) = dm_reserv (d\<lparr>loop_pass_num := 0\<rparr>)"
    using skel_nth [OF assms(1,2)] assms(3) by simp
  then obtain d' where d': "ds' ! k = dm_reserv d'" by (cases "ds' ! k") simp_all
  then have "d'\<lparr>loop_pass_num := 0\<rparr> = d\<lparr>loop_pass_num := 0\<rparr>" using e by simp
  then have "reserv_decl.regexp d' = reserv_decl.regexp d \<and> reserv_decl.name d' = reserv_decl.name d"
    by (metis reserv_decl.select_convs(1) reserv_decl.select_convs(2) reserv_decl.surjective
        reserv_decl.update_convs(3))
  then show ?thesis using d' by blast
qed

lemma finite_unvisited [simp]: "finite (unvisited c ds)"
  by (simp add: unvisited_def)

lemma visited_mark:
  assumes "k < length ds" "ds ! k = dm_reserv d"
  shows "visited c (ds[k := dm_reserv (d\<lparr>loop_pass_num := c\<rparr>)]) = insert k (visited c ds)"
  using assms by (auto simp: visited_def nth_list_update)

lemma unvisited_mark:
  assumes "k < length ds" "ds ! k = dm_reserv d"
  shows "unvisited c (ds[k := dm_reserv (d\<lparr>loop_pass_num := c\<rparr>)]) = unvisited c ds - {k}"
  using assms by (auto simp: unvisited_def nth_list_update)

lemma unvisited_visited:
  assumes "map clear_loop_pass_num ds' = map clear_loop_pass_num ds" "visited c ds \<subseteq> visited c ds'"
  shows "unvisited c ds' \<subseteq> unvisited c ds"
proof
  fix k assume "k \<in> unvisited c ds'"
  then obtain d' where k: "k < length ds'" "ds' ! k = dm_reserv d'" "loop_pass_num d' \<noteq> c"
    by (auto simp: unvisited_def)
  have l: "length ds' = length ds" using assms(1) by (rule skel_length)
  have "is_reserv (ds' ! k)" using k by simp
  then have "is_reserv (ds ! k)" using skel_refs(2) [OF assms(1), of k] k l by simp
  then obtain d where d: "ds ! k = dm_reserv d" by (auto simp: is_reserv_iff)
  have "loop_pass_num d \<noteq> c"
  proof
    assume "loop_pass_num d = c"
    then have "k \<in> visited c ds" using d k l by (simp add: visited_def)
    then have "k \<in> visited c ds'" using assms(2) by blast
    then show False using k by (simp add: visited_def)
  qed
  then show "k \<in> unvisited c ds" using d k l by (simp add: unvisited_def)
qed

lemma dfs_post_compose:
  assumes 1: "dfs_post c st ds R1 ds1 False" and 2: "dfs_post c st ds1 R2 ds' b"
  shows "dfs_post c st ds (R1 \<union> R2) ds' b"
proof -
  have sk1: "map clear_loop_pass_num ds1 = map clear_loop_pass_num ds"
    and v1: "visited c ds \<subseteq> visited c ds1"
    and u1: "\<forall>k<length ds. ds1 ! k = ds ! k \<or> k \<in> visited c ds1"
    and n1: "\<forall>k\<in>R1. k \<noteq> st \<and> k \<in> visited c ds1"
    and w1: "\<forall>w\<in>visited c ds1 - visited c ds.
                st \<notin> decl_refs (ds ! w) \<and> decl_refs (ds ! w) \<subseteq> visited c ds1"
    using 1 by (simp_all add: dfs_post_def)
  have sk2: "map clear_loop_pass_num ds' = map clear_loop_pass_num ds1"
    and v2: "visited c ds1 \<subseteq> visited c ds'"
    and u2: "\<forall>k<length ds1. ds' ! k = ds1 ! k \<or> k \<in> visited c ds'"
    and b2: "b \<longrightarrow> (\<exists>k\<in>R2. (k, st) \<in> (refers ds1)\<^sup>*)"
    and n2: "\<not> b \<longrightarrow> (\<forall>k\<in>R2. k \<noteq> st \<and> k \<in> visited c ds')
          \<and> (\<forall>w\<in>visited c ds' - visited c ds1.
                st \<notin> decl_refs (ds1 ! w) \<and> decl_refs (ds1 ! w) \<subseteq> visited c ds')"
    using 2 by (simp_all add: dfs_post_def)
  have l: "length ds1 = length ds" using sk1 by (rule skel_length)
  have r: "refers ds1 = refers ds" using sk1 by (rule skel_refers)
  have a: "map clear_loop_pass_num ds' = map clear_loop_pass_num ds" using sk1 sk2 by simp
  have b: "visited c ds \<subseteq> visited c ds'" using v1 v2 by blast
  have c': "\<forall>k<length ds. ds' ! k = ds ! k \<or> k \<in> visited c ds'"
    using u1 u2 v2 l by (metis subsetD)
  have d: "b \<longrightarrow> (\<exists>k\<in>R1 \<union> R2. (k, st) \<in> (refers ds)\<^sup>*)" using b2 r by auto
  have e: "\<not> b \<longrightarrow> (\<forall>k\<in>R1 \<union> R2. k \<noteq> st \<and> k \<in> visited c ds')"
    using n1 n2 v2 by blast
  have f: "\<not> b \<longrightarrow> (\<forall>w\<in>visited c ds' - visited c ds.
                st \<notin> decl_refs (ds ! w) \<and> decl_refs (ds ! w) \<subseteq> visited c ds')"
  proof (intro impI ballI)
    fix w assume nb: "\<not> b" and w: "w \<in> visited c ds' - visited c ds"
    show "st \<notin> decl_refs (ds ! w) \<and> decl_refs (ds ! w) \<subseteq> visited c ds'"
    proof (cases "w \<in> visited c ds1")
      case True
      then show ?thesis using w1 w v2 by blast
    next
      case False
      have "w < length ds" using w skel_length [OF a] by (simp add: visited_def)
      then have "decl_refs (ds1 ! w) = decl_refs (ds ! w)" using skel_refs(1) [OF sk1] by simp
      then show ?thesis using n2 nb w False by auto
    qed
  qed
  show ?thesis unfolding dfs_post_def using a b c' d e f by blast
qed

lemma fold_found:
  "fold (\<lambda>r acc. case acc of None \<Rightarrow> None
            | Some (ds', found) \<Rightarrow> if found then Some (ds', True) else f r ds')
     rs (Some (ds, True)) = Some (ds, True)"
  by (induction rs) simp_all

lemma dfs_pre_next:
  assumes "dfs_pre n c st ds R" and "dfs_post c st ds R1 ds1 b" and "R2 \<subseteq> R"
  shows "dfs_pre n c st ds1 R2"
proof -
  have sk: "map clear_loop_pass_num ds1 = map clear_loop_pass_num ds"
    and v: "visited c ds \<subseteq> visited c ds1"
    using assms(2) by (simp_all add: dfs_post_def)
  have l: "length ds1 = length ds" using sk by (rule skel_length)
  have "card (unvisited c ds1) \<le> card (unvisited c ds)"
    using unvisited_visited [OF sk v] by (intro card_mono) simp_all
  moreover have "linked ds1" using skel_linked [OF sk] assms(1) by (simp add: dfs_pre_def)
  moreover have "\<forall>k\<in>R2. k < length ds1 \<and> is_reserv (ds1 ! k)"
    using assms(1,3) skel_refs(2) [OF sk] l unfolding dfs_pre_def by (metis subsetD)
  moreover have "is_reserv (ds1 ! st)"
    using assms(1) skel_refs(2) [OF sk] unfolding dfs_pre_def by metis
  ultimately show ?thesis using assms(1) l by (simp add: dfs_pre_def)
qed

lemma dfs_post_refl:
  "\<forall>k\<in>R. k \<noteq> st \<and> k \<in> visited c ds \<Longrightarrow> dfs_post c st ds R ds False"
  by (simp add: dfs_post_def)

lemma fold_spec:
  assumes IH: "\<And>r ds. r \<in> set rs \<Longrightarrow> dfs_pre n c st ds (reservs_of r) \<Longrightarrow>
                 \<exists>ds' b. f r ds = Some (ds', b) \<and> dfs_post c st ds (reservs_of r) ds' b"
    and pre: "dfs_pre n c st ds (\<Union>r\<in>set rs. reservs_of r)"
  shows "\<exists>ds' b. fold (\<lambda>r acc. case acc of None \<Rightarrow> None
            | Some (ds', found) \<Rightarrow> if found then Some (ds', True) else f r ds')
           rs (Some (ds, False)) = Some (ds', b)
         \<and> dfs_post c st ds (\<Union>r\<in>set rs. reservs_of r) ds' b"
  using assms
proof (induction rs arbitrary: ds)
  case Nil
  show ?case by (intro exI [of _ ds] exI [of _ False]) (simp add: dfs_post_def)
next
  case (Cons r rs)
  let ?step = "\<lambda>r acc. case acc of None \<Rightarrow> None
            | Some (ds', found) \<Rightarrow> if found then Some (ds', True) else f r ds'"
  have p1: "dfs_pre n c st ds (reservs_of r)"
    using Cons.prems(2) by (simp add: dfs_pre_def)
  obtain ds1 b1 where r1: "f r ds = Some (ds1, b1)" "dfs_post c st ds (reservs_of r) ds1 b1"
    using Cons.prems(1) [OF _ p1] by auto
  have st1: "fold ?step (r # rs) (Some (ds, False)) = fold ?step rs (Some (ds1, b1))"
    using r1(1) by simp
  show ?case
  proof (cases b1)
    case True
    then have "fold ?step (r # rs) (Some (ds, False)) = Some (ds1, True)"
      using st1 fold_found [of f rs ds1] by simp
    moreover have "dfs_post c st ds (\<Union>r\<in>set (r # rs). reservs_of r) ds1 True"
      using r1(2) True by (auto simp: dfs_post_def)
    ultimately show ?thesis by blast
  next
    case False
    have p2: "dfs_pre n c st ds1 (\<Union>r\<in>set rs. reservs_of r)"
      using dfs_pre_next [OF Cons.prems(2) r1(2)] by auto
    obtain ds' b where r2: "fold ?step rs (Some (ds1, False)) = Some (ds', b)"
      "dfs_post c st ds1 (\<Union>r\<in>set rs. reservs_of r) ds' b"
      using Cons.IH [OF _ p2] Cons.prems(1) by auto
    have r1f: "dfs_post c st ds (reservs_of r) ds1 False" using r1(2) False by simp
    have "dfs_post c st ds (reservs_of r \<union> (\<Union>r\<in>set rs. reservs_of r)) ds' b"
      by (rule dfs_post_compose [OF r1f r2(2)])
    then show ?thesis using st1 r2(1) False by simp
  qed
qed

lemma loop_in_regexp_spec:
  "dfs_pre n c st ds (reservs_of r) \<Longrightarrow>
   \<exists>ds' b. loop_in_regexp n c st r ds = Some (ds', b) \<and> dfs_post c st ds (reservs_of r) ds' b"
proof (induction n c st r ds rule: loop_in_regexp.induct)
  case (1 n c st u ds)
  show ?case by (intro exI [of _ ds] exI [of _ False]) (simp add: dfs_post_def)
next
  case (2 n c st k ds)
  have lk: "linked ds" and stl: "st < length ds" and str: "is_reserv (ds ! st)"
    and cd: "card (unvisited c ds) \<le> n" and kl: "k < length ds" and kr: "is_reserv (ds ! k)"
    using "2.prems" by (simp_all add: dfs_pre_def)
  obtain d where d: "ds ! k = dm_reserv d" using kr by (auto simp: is_reserv_iff)
  have stc: "(case ds ! st of dm_reserv d \<Rightarrow> True | _ \<Rightarrow> False)"
    using str by (cases "ds ! st") simp_all
  show ?case
  proof (cases "k = st")
    case True
    then have "loop_in_regexp n c st (rm_reserv k) ds = Some (ds, True)" using stc by simp
    moreover have "dfs_post c st ds (reservs_of (rm_reserv k)) ds True"
      using True by (simp add: dfs_post_def)
    ultimately show ?thesis by blast
  next
    case kst: False
    show ?thesis
    proof (cases "loop_pass_num d = c")
      case True
      then have "loop_in_regexp n c st (rm_reserv k) ds = Some (ds, False)"
        using kst d by simp
      moreover have "k \<in> visited c ds" using True d kl by (simp add: visited_def)
      then have "dfs_post c st ds (reservs_of (rm_reserv k)) ds False"
        using kst by (simp add: dfs_post_def)
      ultimately show ?thesis by blast
    next
      case unm: False
      let ?ds1 = "ds[k := dm_reserv (d\<lparr>loop_pass_num := c\<rparr>)]"
      have sk1: "map clear_loop_pass_num ?ds1 = map clear_loop_pass_num ds"
        by (rule skel_mark [OF kl d])
      have v1: "visited c ?ds1 = insert k (visited c ds)" by (rule visited_mark [OF kl d])
      have u1: "unvisited c ?ds1 = unvisited c ds - {k}" by (rule unvisited_mark [OF kl d])
      have ku: "k \<in> unvisited c ds" using unm d kl by (simp add: unvisited_def)
      have ch: "\<forall>j<length ds. ?ds1 ! j = ds ! j \<or> j \<in> visited c ?ds1"
      proof (intro allI impI)
        fix j assume "j < length ds"
        show "?ds1 ! j = ds ! j \<or> j \<in> visited c ?ds1"
        proof (cases "j = k")
          case True then show ?thesis unfolding v1 by simp
        next
          case False then show ?thesis by simp
        qed
      qed
      show ?thesis
      proof (cases "reserv_decl.regexp d")
        case None
        then have "loop_in_regexp n c st (rm_reserv k) ds = Some (?ds1, False)"
          using kst d unm by simp
        moreover have "decl_refs (ds ! k) = {}" using d None by (simp add: decl_refs_def)
        then have "dfs_post c st ds (reservs_of (rm_reserv k)) ?ds1 False"
          unfolding dfs_post_def using sk1 v1 ch kst by auto
        ultimately show ?thesis by blast
      next
        case (Some r)
        have "card (unvisited c ds) \<noteq> 0" using ku by auto
        then obtain n' where n': "n = Suc n'" using cd by (cases n) simp_all
        have refs: "decl_refs (ds ! k) = reservs_of r" using d Some by (simp add: decl_refs_def)
        have c1: "card (unvisited c ?ds1) \<le> n'"
          using u1 ku cd n' by simp
        have l1: "length ?ds1 = length ds" by simp
        have pre1: "dfs_pre n' c st ?ds1 (reservs_of r)"
          unfolding dfs_pre_def
        proof (intro conjI ballI)
          show "linked ?ds1" using skel_linked [OF sk1] lk by simp
          show "st < length ?ds1" using stl by simp
          show "is_reserv (?ds1 ! st)" using skel_refs(2) [OF sk1 stl] str by simp
          show "card (unvisited c ?ds1) \<le> n'" by (rule c1)
        next
          fix j assume "j \<in> reservs_of r"
          then have "j \<in> decl_refs (ds ! k)" using refs by simp
          then have j: "j < length ds" "is_reserv (ds ! j)"
            using lk kl unfolding linked_def is_reserv_iff [symmetric] by auto
          then show "j < length ?ds1" by simp
          show "is_reserv (?ds1 ! j)" using skel_refs(2) [OF sk1 j(1)] j(2) by simp
        qed
        have ncond: "\<not> ((case ds ! st of dm_reserv d \<Rightarrow> True | _ \<Rightarrow> False) \<and> k = st)"
          using kst by simp
        obtain ds' b where res: "loop_in_regexp n' c st r ?ds1 = Some (ds', b)"
          "dfs_post c st ?ds1 (reservs_of r) ds' b"
          using "2.IH" [OF ncond d unm Some n' pre1] by blast
        have eq: "loop_in_regexp n c st (rm_reserv k) ds = Some (ds', b)"
          using kst d unm Some n' res(1) by simp
        have sk2: "map clear_loop_pass_num ds' = map clear_loop_pass_num ?ds1"
          and v2: "visited c ?ds1 \<subseteq> visited c ds'"
          and u2: "\<forall>j<length ?ds1. ds' ! j = ?ds1 ! j \<or> j \<in> visited c ds'"
          and b2: "b \<longrightarrow> (\<exists>j\<in>reservs_of r. (j, st) \<in> (refers ?ds1)\<^sup>*)"
          and n2: "\<not> b \<longrightarrow> (\<forall>j\<in>reservs_of r. j \<noteq> st \<and> j \<in> visited c ds')
              \<and> (\<forall>w\<in>visited c ds' - visited c ?ds1.
                    st \<notin> decl_refs (?ds1 ! w) \<and> decl_refs (?ds1 ! w) \<subseteq> visited c ds')"
          using res(2) by (simp_all add: dfs_post_def)
        have rf: "refers ?ds1 = refers ds" using sk1 by (rule skel_refers)
        have p1: "map clear_loop_pass_num ds' = map clear_loop_pass_num ds" using sk1 sk2 by simp
        have p2: "visited c ds \<subseteq> visited c ds'" using v1 v2 by blast
        have kv: "k \<in> visited c ds'" using v1 v2 by blast
        have p3: "\<forall>j<length ds. ds' ! j = ds ! j \<or> j \<in> visited c ds'"
        proof (intro allI impI)
          fix j assume j: "j < length ds"
          show "ds' ! j = ds ! j \<or> j \<in> visited c ds'"
          proof (cases "j = k")
            case True then show ?thesis using kv by simp
          next
            case False
            then have "?ds1 ! j = ds ! j" by simp
            then show ?thesis using u2 j by auto
          qed
        qed
        have p4: "b \<longrightarrow> (\<exists>j\<in>reservs_of (rm_reserv k). (j, st) \<in> (refers ds)\<^sup>*)"
        proof
          assume b
          then obtain j where j: "j \<in> reservs_of r" "(j, st) \<in> (refers ds)\<^sup>*"
            using b2 rf by auto
          have "(k, j) \<in> refers ds" using j(1) refs kl by (simp add: refers_def)
          then have "(k, st) \<in> (refers ds)\<^sup>*" using j(2) by (rule converse_rtrancl_into_rtrancl)
          then show "\<exists>j\<in>reservs_of (rm_reserv k). (j, st) \<in> (refers ds)\<^sup>*" by simp
        qed
        have p5: "\<not> b \<longrightarrow> (\<forall>j\<in>reservs_of (rm_reserv k). j \<noteq> st \<and> j \<in> visited c ds')"
          using kst kv by simp
        have p6: "\<not> b \<longrightarrow> (\<forall>w\<in>visited c ds' - visited c ds.
                    st \<notin> decl_refs (ds ! w) \<and> decl_refs (ds ! w) \<subseteq> visited c ds')"
        proof (intro impI ballI)
          fix w assume nb: "\<not> b" and w: "w \<in> visited c ds' - visited c ds"
          show "st \<notin> decl_refs (ds ! w) \<and> decl_refs (ds ! w) \<subseteq> visited c ds'"
          proof (cases "w = k")
            case True
            then show ?thesis using refs n2 nb by auto
          next
            case False
            then have w1: "w \<in> visited c ds' - visited c ?ds1" using w v1 by simp
            have "w < length ds" using w skel_length [OF p1] by (simp add: visited_def)
            then have "decl_refs (?ds1 ! w) = decl_refs (ds ! w)"
              using skel_refs(1) [OF sk1] by simp
            then show ?thesis using n2 nb w1 by auto
          qed
        qed
        have "dfs_post c st ds (reservs_of (rm_reserv k)) ds' b"
          unfolding dfs_post_def using p1 p2 p3 p4 p5 p6 by blast
        then show ?thesis using eq by blast
      qed
    qed
  qed
next
  case (3 n c st rs ds)
  have "\<And>r ds. r \<in> set rs \<Longrightarrow> dfs_pre n c st ds (reservs_of r) \<Longrightarrow>
          \<exists>ds' b. loop_in_regexp n c st r ds = Some (ds', b)
                  \<and> dfs_post c st ds (reservs_of r) ds' b"
    using "3.IH" by blast
  from fold_spec [of rs n c st "loop_in_regexp n c st", OF this] "3.prems"
  show ?case by simp
next
  case (4 n c st rs ds)
  have "\<And>r ds. r \<in> set rs \<Longrightarrow> dfs_pre n c st ds (reservs_of r) \<Longrightarrow>
          \<exists>ds' b. loop_in_regexp n c st r ds = Some (ds', b)
                  \<and> dfs_post c st ds (reservs_of r) ds' b"
    using "4.IH" by blast
  from fold_spec [of rs n c st "loop_in_regexp n c st", OF this] "4.prems"
  show ?case by simp
next
  case (5 n c st rs ds)
  have "\<And>r ds. r \<in> set rs \<Longrightarrow> dfs_pre n c st ds (reservs_of r) \<Longrightarrow>
          \<exists>ds' b. loop_in_regexp n c st r ds = Some (ds', b)
                  \<and> dfs_post c st ds (reservs_of r) ds' b"
    using "5.IH" by blast
  from fold_spec [of rs n c st "loop_in_regexp n c st", OF this] "5.prems"
  show ?case by simp
next
  case (6 n c st r repeat_num ds)
  then show ?case by simp
next
  case (7 n c st ds)
  show ?case by (intro exI [of _ ds] exI [of _ False]) (simp add: dfs_post_def)
qed




subsection \<open>Intersection of reservation sets\<close>

lemma char_nonzero: "(w :: 8 word) \<noteq> 0 \<longleftrightarrow> (\<exists>i<8. bit w i)"
proof
  assume "w \<noteq> 0"
  then obtain i where "bit w i" by (auto simp: bit_eq_iff)
  moreover from this have "i < 8" using bit_imp_le_length [of w i] by simp
  ultimately show "\<exists>i<8. bit w i" by blast
next
  assume "\<exists>i<8. bit w i"
  then show "w \<noteq> 0" by auto
qed

lemma char_and_nonzero: "(x :: 8 word) AND y \<noteq> 0 \<longleftrightarrow> (\<exists>i<8. bit x i \<and> bit y i)"
  by (simp add: char_nonzero bit_and_iff)

lemma char_within: "(c :: 8 word) AND p = p \<longleftrightarrow> (\<forall>i<8. bit p i \<longrightarrow> bit c i)"
proof
  assume e: "c AND p = p"
  show "\<forall>i<8. bit p i \<longrightarrow> bit c i"
  proof (intro allI impI)
    fix i assume "bit p i"
    then have "bit (c AND p) i" using e by simp
    then show "bit c i" by (simp add: bit_and_iff)
  qed
next
  assume a: "\<forall>i<8. bit p i \<longrightarrow> bit c i"
  show "c AND p = p"
  proof (rule bit_eqI)
    fix i
    show "bit (c AND p) i = bit p i"
      using a bit_imp_le_length [of p i] by (auto simp: bit_and_iff)
  qed
qed

lemma char_absence_cond:
  "\<not> ((c :: 8 word) AND p \<noteq> p \<and> p \<noteq> 0) \<longleftrightarrow> c AND p = p"
  by auto

lemma bits_of_chars:
  "(\<exists>k<N. \<exists>i<8. Q (k * 8 + i)) \<longleftrightarrow> (\<exists>n<N * 8. Q (n::nat))"
proof
  assume "\<exists>k<N. \<exists>i<8. Q (k * 8 + i)"
  then obtain k i where ki: "k < N" "i < 8" "Q (k * 8 + i)" by blast
  have "k * 8 + i < N * 8" using ki(1,2) by (metis add.commute mult.commute div_less_iff_less_mult div_mult_self2 div_less zero_less_numeral add.right_neutral less_numeral_extra(3) zero_neq_numeral)
  then show "\<exists>n<N * 8. Q n" using ki(3) by blast
next
  assume "\<exists>n<N * 8. Q n"
  then obtain n where n: "n < N * 8" "Q n" by blast
  have "n div 8 < N" using n(1) by (simp add: div_less_iff_less_mult)
  moreover have "n mod 8 < 8" by simp
  moreover have "Q (n div 8 * 8 + n mod 8)" using n(2) by simp
  ultimately show "\<exists>k<N. \<exists>i<8. Q (k * 8 + i)" by blast
qed

lemma TEST_BIT_char: "i < 8 \<Longrightarrow> TEST_BIT s (k * 8 + i) = bit (s ! k) i"
  by (simp add: TEST_BIT_def CHAR_BIT_def)

lemma chars_intersect:
  "list_ex (\<lambda>el. (x ! el) AND (y ! el) \<noteq> 0) [0 ..< N]
     \<longleftrightarrow> (\<exists>n<N * 8. TEST_BIT x n \<and> TEST_BIT y n)"
proof -
  have "list_ex (\<lambda>el. (x ! el) AND (y ! el) \<noteq> 0) [0 ..< N]
          \<longleftrightarrow> (\<exists>k<N. \<exists>i<8. TEST_BIT x (k * 8 + i) \<and> TEST_BIT y (k * 8 + i))"
    by (simp add: list_ex_iff char_and_nonzero TEST_BIT_char Bex_def cong: conj_cong)
  also have "\<dots> \<longleftrightarrow> (\<exists>n<N * 8. TEST_BIT x n \<and> TEST_BIT y n)"
    by (rule bits_of_chars [of N "\<lambda>n. TEST_BIT x n \<and> TEST_BIT y n"])
  finally show ?thesis .
qed

lemma chars_within:
  "list_all (\<lambda>un. (c ! un) AND (p ! un) = p ! un) [0 ..< N]
     \<longleftrightarrow> (\<forall>n<N * 8. TEST_BIT p n \<longrightarrow> TEST_BIT c n)"
proof -
  have "\<not> list_all (\<lambda>un. (c ! un) AND (p ! un) = p ! un) [0 ..< N]
          \<longleftrightarrow> (\<exists>k<N. \<exists>i<8. \<not> (TEST_BIT p (k * 8 + i) \<longrightarrow> TEST_BIT c (k * 8 + i)))"
    by (simp add: list_all_iff char_within TEST_BIT_char Bex_def Ball_def cong: conj_cong)
  also have "\<dots> \<longleftrightarrow> (\<exists>n<N * 8. \<not> (TEST_BIT p n \<longrightarrow> TEST_BIT c n))"
    by (rule bits_of_chars [of N "\<lambda>n. \<not> (TEST_BIT p n \<longrightarrow> TEST_BIT c n)"])
  finally show ?thesis by blast
qed

lemma TEST_BIT_drop:
  "k \<le> length s \<Longrightarrow> TEST_BIT (drop k s) n = TEST_BIT s (k * 8 + n)"
proof -
  assume k: "k \<le> length s"
  have "(k * 8 + n) div 8 = k + n div 8" by simp
  moreover have "(k * 8 + n) mod 8 = n mod 8" by simp
  ultimately show ?thesis using k by (simp add: TEST_BIT_def CHAR_BIT_def)
qed

lemma TEST_BIT_map2_or:
  "n div 8 < length x \<Longrightarrow> n div 8 < length y \<Longrightarrow>
   TEST_BIT (map2 (OR) x y) n = (TEST_BIT x n \<or> TEST_BIT y n)"
  by (simp add: TEST_BIT_def CHAR_BIT_def bit_or_iff)


lemma set_rev_bits: "set (rev [0 ..< CHAR_BIT]) = {i. i < 8}"
  by (auto simp: CHAR_BIT_def)

lemma presence_bits:
  assumes "\<forall>i\<in>set bits. bit (os ! c) i \<longrightarrow> c * 8 + i < units_num g"
  shows "check_presence_pattern_sets_bits g cs os fp c bits \<longleftrightarrow>
         (\<forall>i\<in>set bits. bit (os ! c) i \<longrightarrow>
            (let t = (if fp then unit_final_presence_set_table g else unit_presence_set_table g)
                       ! (c * 8 + i)
             in t = [] \<or> list_ex (presence_pattern_holds g cs) t))"
  using assms
proof (induction bits)
  case Nil
  show ?case by simp
next
  case (Cons i bits)
  then show ?case by (cases fp) (auto simp: CHAR_BIT_def Let_def)
qed

lemma presence_chars:
  assumes "\<forall>c\<in>set chars. \<forall>i<8. bit (os ! c) i \<longrightarrow> c * 8 + i < units_num g"
  shows "check_presence_pattern_sets_chars g cs os fp chars \<longleftrightarrow>
         (\<forall>c\<in>set chars. \<forall>i<8. bit (os ! c) i \<longrightarrow>
            (let t = (if fp then unit_final_presence_set_table g else unit_presence_set_table g)
                       ! (c * 8 + i)
             in t = [] \<or> list_ex (presence_pattern_holds g cs) t))"
  using assms
proof (induction chars)
  case Nil
  show ?case by simp
next
  case (Cons c chars)
  have b: "check_presence_pattern_sets_bits g cs os fp c (rev [0 ..< CHAR_BIT]) \<longleftrightarrow>
         (\<forall>i<8. bit (os ! c) i \<longrightarrow>
            (let t = (if fp then unit_final_presence_set_table g else unit_presence_set_table g)
                       ! (c * 8 + i)
             in t = [] \<or> list_ex (presence_pattern_holds g cs) t))"
    using Cons.prems by (subst presence_bits) (simp_all add: set_rev_bits del: set_rev)
  have z: "os ! c = 0 \<Longrightarrow> \<forall>i<8. \<not> bit (os ! c) i" by simp
  have ih: "check_presence_pattern_sets_chars g cs os fp chars \<longleftrightarrow>
         (\<forall>c\<in>set chars. \<forall>i<8. bit (os ! c) i \<longrightarrow>
            (let t = (if fp then unit_final_presence_set_table g else unit_presence_set_table g)
                       ! (c * 8 + i)
             in t = [] \<or> list_ex (presence_pattern_holds g cs) t))"
    using Cons by simp
  show ?case
  proof (cases "os ! c = 0")
    case True
    then show ?thesis using ih z by simp
  next
    case False
    then show ?thesis using ih b by auto
  qed
qed

lemma absence_bits:
  assumes "\<forall>i\<in>set bits. bit (os ! c) i \<longrightarrow> c * 8 + i < units_num g"
  shows "check_absence_pattern_sets_bits g cs os fp c bits \<longleftrightarrow>
         (\<forall>i\<in>set bits. bit (os ! c) i \<longrightarrow>
            \<not> list_ex (absence_pattern_holds g cs)
                 ((if fp then unit_final_absence_set_table g else unit_absence_set_table g)
                     ! (c * 8 + i)))"
  using assms
proof (induction bits)
  case Nil
  show ?case by simp
next
  case (Cons i bits)
  then show ?case by (cases fp) (auto simp: CHAR_BIT_def Let_def)
qed

lemma absence_chars:
  assumes "\<forall>c\<in>set chars. \<forall>i<8. bit (os ! c) i \<longrightarrow> c * 8 + i < units_num g"
  shows "check_absence_pattern_sets_chars g cs os fp chars \<longleftrightarrow>
         (\<forall>c\<in>set chars. \<forall>i<8. bit (os ! c) i \<longrightarrow>
            \<not> list_ex (absence_pattern_holds g cs)
                 ((if fp then unit_final_absence_set_table g else unit_absence_set_table g)
                     ! (c * 8 + i)))"
  using assms
proof (induction chars)
  case Nil
  show ?case by simp
next
  case (Cons c chars)
  have b: "check_absence_pattern_sets_bits g cs os fp c (rev [0 ..< CHAR_BIT]) \<longleftrightarrow>
         (\<forall>i<8. bit (os ! c) i \<longrightarrow>
            \<not> list_ex (absence_pattern_holds g cs)
                 ((if fp then unit_final_absence_set_table g else unit_absence_set_table g)
                     ! (c * 8 + i)))"
    using Cons.prems by (subst absence_bits) (simp_all add: set_rev_bits del: set_rev)
  have z: "os ! c = 0 \<Longrightarrow> \<forall>i<8. \<not> bit (os ! c) i" by simp
  have ih: "check_absence_pattern_sets_chars g cs os fp chars \<longleftrightarrow>
         (\<forall>c\<in>set chars. \<forall>i<8. bit (os ! c) i \<longrightarrow>
            \<not> list_ex (absence_pattern_holds g cs)
                 ((if fp then unit_final_absence_set_table g else unit_absence_set_table g)
                     ! (c * 8 + i)))"
    using Cons by simp
  show ?case
  proof (cases "os ! c = 0")
    case True
    then show ?thesis using ih z by simp
  next
    case False
    then show ?thesis using ih b by auto
  qed
qed

lemma all_bits_of_chars:
  "(\<forall>k<N. \<forall>i<8. Q (k * 8 + i)) \<longleftrightarrow> (\<forall>n<N * 8. Q (n::nat))"
  using bits_of_chars [of N "\<lambda>n. \<not> Q n"] by blast

lemma scan_bits:
  "(\<forall>c\<in>set [0 ..< N]. \<forall>i<8. bit (os ! c) i \<longrightarrow> P (c * 8 + i))
     \<longleftrightarrow> (\<forall>n<N * 8. TEST_BIT os n \<longrightarrow> P n)"
proof -
  have "(\<forall>c\<in>set [0 ..< N]. \<forall>i<8. bit (os ! c) i \<longrightarrow> P (c * 8 + i))
        \<longleftrightarrow> (\<forall>c<N. \<forall>i<8. TEST_BIT os (c * 8 + i) \<longrightarrow> P (c * 8 + i))"
    by (simp add: TEST_BIT_char Ball_def)
  also have "\<dots> \<longleftrightarrow> (\<forall>n<N * 8. TEST_BIT os n \<longrightarrow> P n)"
    by (rule all_bits_of_chars [of N "\<lambda>n. TEST_BIT os n \<longrightarrow> P n"])
  finally show ?thesis .
qed

lemma check_presence_pattern_sets_iff:
  assumes "\<forall>n<chars_num g * 8. TEST_BIT os n \<longrightarrow> n < units_num g"
  shows "check_presence_pattern_sets g cs os fp \<longleftrightarrow>
         (\<forall>n<chars_num g * 8. TEST_BIT os n \<longrightarrow>
            (let t = (if fp then unit_final_presence_set_table g else unit_presence_set_table g) ! n
             in t = [] \<or> list_ex (presence_pattern_holds g cs) t))"
proof -
  have w: "\<forall>c\<in>set [0 ..< chars_num g]. \<forall>i<8. bit (os ! c) i \<longrightarrow> c * 8 + i < units_num g"
    using assms unfolding scan_bits [of "chars_num g" os "\<lambda>n. n < units_num g"] .
  show ?thesis
    unfolding check_presence_pattern_sets_def presence_chars [OF w]
    by (rule scan_bits [of "chars_num g" os "\<lambda>n. let t = (if fp then unit_final_presence_set_table g else unit_presence_set_table g) ! n
             in t = [] \<or> list_ex (presence_pattern_holds g cs) t"])
qed

lemma check_absence_pattern_sets_iff:
  assumes "\<forall>n<chars_num g * 8. TEST_BIT os n \<longrightarrow> n < units_num g"
  shows "check_absence_pattern_sets g cs os fp \<longleftrightarrow>
         (\<forall>n<chars_num g * 8. TEST_BIT os n \<longrightarrow>
            \<not> list_ex (absence_pattern_holds g cs)
                 ((if fp then unit_final_absence_set_table g else unit_absence_set_table g) ! n))"
proof -
  have w: "\<forall>c\<in>set [0 ..< chars_num g]. \<forall>i<8. bit (os ! c) i \<longrightarrow> c * 8 + i < units_num g"
    using assms unfolding scan_bits [of "chars_num g" os "\<lambda>n. n < units_num g"] .
  show ?thesis
    unfolding check_absence_pattern_sets_def absence_chars [OF w]
    by (rule scan_bits [of "chars_num g" os "\<lambda>n. \<not> list_ex (absence_pattern_holds g cs)
                 ((if fp then unit_final_absence_set_table g else unit_absence_set_table g) ! n)"])
qed

lemma excl_bits:
  assumes "\<forall>i\<in>set bits. bit (os ! c) i \<longrightarrow> c * 8 + i < units_num g"
    and "\<forall>u<units_num g. length (unit_excl_set_table g ! u) = length e"
  shows "\<exists>e'. get_excl_set_bits g os c bits e = (False, e') \<and> length e' = length e
           \<and> (\<forall>v<length e * 8. TEST_BIT e' v \<longleftrightarrow>
                  TEST_BIT e v \<or> (\<exists>i\<in>set bits. bit (os ! c) i
                                     \<and> TEST_BIT (unit_excl_set_table g ! (c * 8 + i)) v))"
  using assms
proof (induction bits arbitrary: e)
  case Nil
  show ?case by simp
next
  case (Cons i bits)
  show ?case
  proof (cases "bit (os ! c) i")
    case False
    then show ?thesis using Cons.IH [of e] Cons.prems by simp
  next
    case True
    let ?t = "unit_excl_set_table g ! (c * 8 + i)"
    let ?e1 = "map2 (OR) e ?t"
    have u: "c * 8 + i < units_num g" using True Cons.prems(1) by simp
    then have lt: "length ?t = length e" using Cons.prems(2) by simp
    then have l1: "length ?e1 = length e" by simp
    have p2: "\<forall>u<units_num g. length (unit_excl_set_table g ! u) = length ?e1"
      using Cons.prems(2) l1 by simp
    have p1: "\<forall>i\<in>set bits. bit (os ! c) i \<longrightarrow> c * 8 + i < units_num g"
      using Cons.prems(1) by simp
    obtain e' where e': "get_excl_set_bits g os c bits ?e1 = (False, e')" "length e' = length ?e1"
      "\<forall>v<length ?e1 * 8. TEST_BIT e' v \<longleftrightarrow>
                  TEST_BIT ?e1 v \<or> (\<exists>i\<in>set bits. bit (os ! c) i
                                     \<and> TEST_BIT (unit_excl_set_table g ! (c * 8 + i)) v)"
      using Cons.IH [OF p1 p2] by blast
    have eq: "get_excl_set_bits g os c (i # bits) e = (False, e')"
      using True u e'(1) by (simp add: CHAR_BIT_def Let_def)
    have "\<forall>v<length e * 8. TEST_BIT e' v \<longleftrightarrow>
                  TEST_BIT e v \<or> (\<exists>j\<in>set (i # bits). bit (os ! c) j
                                     \<and> TEST_BIT (unit_excl_set_table g ! (c * 8 + j)) v)"
    proof (intro allI impI)
      fix v assume v: "v < length e * 8"
      then have d: "v div 8 < length e" by (simp add: div_less_iff_less_mult)
      have "TEST_BIT ?e1 v \<longleftrightarrow> TEST_BIT e v \<or> TEST_BIT ?t v"
        using d lt by (simp add: TEST_BIT_map2_or)
      then show "TEST_BIT e' v \<longleftrightarrow>
                  TEST_BIT e v \<or> (\<exists>j\<in>set (i # bits). bit (os ! c) j
                                     \<and> TEST_BIT (unit_excl_set_table g ! (c * 8 + j)) v)"
        using e'(3) v l1 True by auto
    qed
    then show ?thesis using eq e'(2) l1 by simp
  qed
qed

lemma excl_chars:
  assumes "\<forall>c\<in>set chars. \<forall>i<8. bit (os ! c) i \<longrightarrow> c * 8 + i < units_num g"
    and "\<forall>u<units_num g. length (unit_excl_set_table g ! u) = length e"
  shows "length (get_excl_set_chars g os chars e) = length e
           \<and> (\<forall>v<length e * 8. TEST_BIT (get_excl_set_chars g os chars e) v \<longleftrightarrow>
                  TEST_BIT e v \<or> (\<exists>c\<in>set chars. \<exists>i<8. bit (os ! c) i
                                     \<and> TEST_BIT (unit_excl_set_table g ! (c * 8 + i)) v))"
  using assms
proof (induction chars arbitrary: e)
  case Nil
  show ?case by simp
next
  case (Cons c chars)
  have p1: "\<forall>c\<in>set chars. \<forall>i<8. bit (os ! c) i \<longrightarrow> c * 8 + i < units_num g"
    using Cons.prems(1) by simp
  show ?case
  proof (cases "os ! c = 0")
    case True
    then have "\<forall>i<8. \<not> bit (os ! c) i" by simp
    then show ?thesis using Cons.IH [OF p1 Cons.prems(2)] True by simp
  next
    case False
    have pb: "\<forall>i\<in>set (rev [0 ..< CHAR_BIT]). bit (os ! c) i \<longrightarrow> c * 8 + i < units_num g"
      using Cons.prems(1) by (simp add: set_rev_bits del: set_rev)
    obtain e1 where e1: "get_excl_set_bits g os c (rev [0 ..< CHAR_BIT]) e = (False, e1)"
      "length e1 = length e"
      "\<forall>v<length e * 8. TEST_BIT e1 v \<longleftrightarrow>
                  TEST_BIT e v \<or> (\<exists>i\<in>set (rev [0 ..< CHAR_BIT]). bit (os ! c) i
                                     \<and> TEST_BIT (unit_excl_set_table g ! (c * 8 + i)) v)"
      using excl_bits [OF pb Cons.prems(2)] by blast
    have p2: "\<forall>u<units_num g. length (unit_excl_set_table g ! u) = length e1"
      using Cons.prems(2) e1(2) by simp
    have eq: "get_excl_set_chars g os (c # chars) e = get_excl_set_chars g os chars e1"
      using False e1(1) by simp
    have e1': "\<forall>v<length e * 8. TEST_BIT e1 v \<longleftrightarrow>
                  TEST_BIT e v \<or> (\<exists>i<8. bit (os ! c) i
                                     \<and> TEST_BIT (unit_excl_set_table g ! (c * 8 + i)) v)"
      using e1(3) by (simp add: set_rev_bits Bex_def del: set_rev)
    show ?thesis
      unfolding eq using Cons.IH [OF p1 p2] e1(2) e1' by auto
  qed
qed

lemma TEST_BIT_replicate_zero: "v div 8 < k \<Longrightarrow> \<not> TEST_BIT (replicate k 0) v"
  by (simp add: TEST_BIT_def CHAR_BIT_def)

lemma get_excl_set_iff:
  assumes "\<forall>n<chars_num g * 8. TEST_BIT os n \<longrightarrow> n < units_num g"
    and "\<forall>u<units_num g. length (unit_excl_set_table g ! u) = chars_num g"
    and "v < chars_num g * 8"
  shows "TEST_BIT (get_excl_set g os) v \<longleftrightarrow>
           (\<exists>n<chars_num g * 8. TEST_BIT os n \<and> TEST_BIT (unit_excl_set_table g ! n) v)"
    and "length (get_excl_set g os) = chars_num g"
proof -
  have w: "\<forall>c\<in>set [0 ..< chars_num g]. \<forall>i<8. bit (os ! c) i \<longrightarrow> c * 8 + i < units_num g"
    using assms(1) unfolding scan_bits [of "chars_num g" os "\<lambda>n. n < units_num g"] .
  have l: "\<forall>u<units_num g. length (unit_excl_set_table g ! u) = length (replicate (chars_num g) (0 :: 8 word))"
    using assms(2) by simp
  note r = excl_chars [OF w l]
  show "length (get_excl_set g os) = chars_num g"
    using r by (simp add: get_excl_set_def)
  have "v div 8 < chars_num g" using assms(3) by (simp add: div_less_iff_less_mult)
  then have z: "\<not> TEST_BIT (replicate (chars_num g) 0) v" by (rule TEST_BIT_replicate_zero)
  have "TEST_BIT (get_excl_set g os) v \<longleftrightarrow>
          (\<exists>c<chars_num g. \<exists>i<8. bit (os ! c) i \<and> TEST_BIT (unit_excl_set_table g ! (c * 8 + i)) v)"
    using r assms(3) z by (simp add: get_excl_set_def Bex_def)
  also have "\<dots> \<longleftrightarrow> (\<exists>c<chars_num g. \<exists>i<8. TEST_BIT os (c * 8 + i)
                             \<and> TEST_BIT (unit_excl_set_table g ! (c * 8 + i)) v)"
    by (simp add: TEST_BIT_char cong: conj_cong)
  also have "\<dots> \<longleftrightarrow> (\<exists>n<chars_num g * 8. TEST_BIT os n \<and> TEST_BIT (unit_excl_set_table g ! n) v)"
    by (rule bits_of_chars [of "chars_num g" "\<lambda>n. TEST_BIT os n \<and> TEST_BIT (unit_excl_set_table g ! n) v"])
  finally show "TEST_BIT (get_excl_set g os) v \<longleftrightarrow>
           (\<exists>n<chars_num g * 8. TEST_BIT os n \<and> TEST_BIT (unit_excl_set_table g ! n) v)" .
qed


lemma cycle_bits_chars: "cycle_bits g = chars_num g * 8"
  by (simp add: cycle_bits_def chars_num_def CHAR_BIT_def)

lemma unit_reserved_drop:
  "cycle * chars_num g \<le> length rs \<Longrightarrow>
   TEST_BIT (drop (cycle * chars_num g) rs) n = unit_reserved g rs cycle n"
  by (simp add: TEST_BIT_drop unit_reserved_def cycle_bits_chars mult.assoc)

lemma presence_pattern_holds_iff:
  "cycle * chars_num g \<le> length rs \<Longrightarrow>
   presence_pattern_holds g (drop (cycle * chars_num g) rs) p = pattern_reserved g p rs cycle"
  unfolding presence_pattern_holds_def pattern_reserved_def chars_within cycle_bits_chars
  by (simp add: unit_reserved_drop)

lemma absence_pattern_holds_iff:
  "cycle * chars_num g \<le> length rs \<Longrightarrow>
   absence_pattern_holds g (drop (cycle * chars_num g) rs) p = pattern_reserved g p rs cycle"
  unfolding absence_pattern_holds_def pattern_reserved_def char_absence_cond chars_within
    cycle_bits_chars
  by (simp add: unit_reserved_drop)

lemma intersected_on_cycle_iff:
  assumes tf: "tables_formed g"
    and la: "length a = max_cycles_num g * chars_num g"
    and lb: "length b = max_cycles_num g * chars_num g"
    and uo: "units_only g b"
    and c: "cycle < max_cycles_num g"
  shows "intersected_on_cycle g a b (reserv_sets_or a b) cycle \<longleftrightarrow>
           (\<exists>un<units_num g. unit_reserved g b cycle un \<and> unit_conflict g a b cycle un)"
proof -
  let ?K = "chars_num g"
  let ?ca = "drop (cycle * ?K) a" and ?cb = "drop (cycle * ?K) b"
  let ?ct = "drop (cycle * ?K) (reserv_sets_or a b)"
  have ck: "cycle * ?K \<le> max_cycles_num g * ?K" using c by simp
  have ca: "cycle * ?K \<le> length a" and cb: "cycle * ?K \<le> length b"
    and ct: "cycle * ?K \<le> length (reserv_sets_or a b)"
    using ck la lb by (simp_all add: reserv_sets_or_def)
  have sz: "0 < sizeof_set_el g" using tf by (simp add: tables_formed_def)
  have ule: "units_num g \<le> ?K * 8"
    using units_le_cycle_bits [OF sz] by (simp add: cycle_bits_chars)
  have wf: "\<forall>n<?K * 8. TEST_BIT ?cb n \<longrightarrow> n < units_num g"
    using uo c by (simp add: units_only_def unit_reserved_drop [OF cb] cycle_bits_chars)
  have el: "\<forall>u<units_num g. length (unit_excl_set_table g ! u) = ?K"
    using tf by (simp add: tables_formed_def)
  have rng: "\<And>Q. (\<exists>n<?K * 8. TEST_BIT ?cb n \<and> Q n)
                 \<longleftrightarrow> (\<exists>un<units_num g. unit_reserved g b cycle un \<and> Q un)"
    using wf ule unit_reserved_drop [OF cb] by (metis less_le_trans)
  have E: "list_ex (\<lambda>el. (?ca ! el) AND (get_excl_set g ?cb ! el) \<noteq> 0) [0 ..< ?K]
            \<longleftrightarrow> (\<exists>un<units_num g. unit_reserved g b cycle un
                   \<and> (\<exists>other<cycle_bits g. TEST_BIT (unit_excl_set_table g ! un) other
                          \<and> unit_reserved g a cycle other))"
  proof -
    have "list_ex (\<lambda>el. (?ca ! el) AND (get_excl_set g ?cb ! el) \<noteq> 0) [0 ..< ?K]
            \<longleftrightarrow> (\<exists>v<?K * 8. TEST_BIT ?ca v \<and> TEST_BIT (get_excl_set g ?cb) v)"
      by (rule chars_intersect)
    also have "\<dots> \<longleftrightarrow> (\<exists>v<?K * 8. unit_reserved g a cycle v
                  \<and> (\<exists>n<?K * 8. TEST_BIT ?cb n \<and> TEST_BIT (unit_excl_set_table g ! n) v))"
      using get_excl_set_iff(1) [OF wf el] unit_reserved_drop [OF ca] by auto
    also have "\<dots> \<longleftrightarrow> (\<exists>n<?K * 8. TEST_BIT ?cb n
                  \<and> (\<exists>v<?K * 8. TEST_BIT (unit_excl_set_table g ! n) v
                          \<and> unit_reserved g a cycle v))"
      by blast
    also have "\<dots> \<longleftrightarrow> (\<exists>un<units_num g. unit_reserved g b cycle un
                   \<and> (\<exists>v<?K * 8. TEST_BIT (unit_excl_set_table g ! un) v
                          \<and> unit_reserved g a cycle v))"
      by (rule rng)
    finally show ?thesis by (simp add: cycle_bits_chars)
  qed
  have P: "\<not> check_presence_pattern_sets g ?ca ?cb False
            \<longleftrightarrow> (\<exists>un<units_num g. unit_reserved g b cycle un
                   \<and> unit_presence_set_table g ! un \<noteq> []
                   \<and> (\<forall>p\<in>set (unit_presence_set_table g ! un).
                          \<not> pattern_reserved g p a cycle))"
    unfolding check_presence_pattern_sets_iff [OF wf]
    using rng [of "\<lambda>n. unit_presence_set_table g ! n \<noteq> []
                   \<and> (\<forall>p\<in>set (unit_presence_set_table g ! n).
                          \<not> pattern_reserved g p a cycle)"]
    by (simp add: Let_def list_ex_iff presence_pattern_holds_iff [OF ca] not_le)
  have FP: "\<not> check_presence_pattern_sets g ?ct ?cb True
            \<longleftrightarrow> (\<exists>un<units_num g. unit_reserved g b cycle un
                   \<and> unit_final_presence_set_table g ! un \<noteq> []
                   \<and> (\<forall>p\<in>set (unit_final_presence_set_table g ! un).
                          \<not> pattern_reserved g p (reserv_sets_or a b) cycle))"
    unfolding check_presence_pattern_sets_iff [OF wf]
    using rng [of "\<lambda>n. unit_final_presence_set_table g ! n \<noteq> []
                   \<and> (\<forall>p\<in>set (unit_final_presence_set_table g ! n).
                          \<not> pattern_reserved g p (reserv_sets_or a b) cycle)"]
    by (simp add: Let_def list_ex_iff presence_pattern_holds_iff [OF ct] not_le)
  have A: "\<not> check_absence_pattern_sets g ?ca ?cb False
            \<longleftrightarrow> (\<exists>un<units_num g. unit_reserved g b cycle un
                   \<and> (\<exists>p\<in>set (unit_absence_set_table g ! un). pattern_reserved g p a cycle))"
    unfolding check_absence_pattern_sets_iff [OF wf]
    using rng [of "\<lambda>n. \<exists>p\<in>set (unit_absence_set_table g ! n). pattern_reserved g p a cycle"]
    by (simp add: list_ex_iff absence_pattern_holds_iff [OF ca] not_le)
  have FA: "\<not> check_absence_pattern_sets g ?ct ?cb True
            \<longleftrightarrow> (\<exists>un<units_num g. unit_reserved g b cycle un
                   \<and> (\<exists>p\<in>set (unit_final_absence_set_table g ! un).
                         pattern_reserved g p (reserv_sets_or a b) cycle))"
    unfolding check_absence_pattern_sets_iff [OF wf]
    using rng [of "\<lambda>n. \<exists>p\<in>set (unit_final_absence_set_table g ! n).
                         pattern_reserved g p (reserv_sets_or a b) cycle"]
    by (simp add: list_ex_iff absence_pattern_holds_iff [OF ct] not_le)
  have "intersected_on_cycle g a b (reserv_sets_or a b) cycle \<longleftrightarrow>
          list_ex (\<lambda>el. (?ca ! el) AND (get_excl_set g ?cb ! el) \<noteq> 0) [0 ..< ?K]
          \<or> \<not> check_presence_pattern_sets g ?ca ?cb False
          \<or> \<not> check_presence_pattern_sets g ?ct ?cb True
          \<or> \<not> check_absence_pattern_sets g ?ca ?cb False
          \<or> \<not> check_absence_pattern_sets g ?ct ?cb True"
    unfolding intersected_on_cycle_def Let_def by auto
  also have "\<dots> \<longleftrightarrow> (\<exists>un<units_num g. unit_reserved g b cycle un \<and> unit_conflict g a b cycle un)"
    unfolding E P FP A FA unit_conflict_def by blast
  finally show ?thesis .
qed


lemma common_bit_iff:
  assumes sz: "0 < sizeof_set_el g"
    and uo: "units_only g b"
  shows "(\<exists>n<max_cycles_num g * chars_num g * 8. TEST_BIT a n \<and> TEST_BIT b n) \<longleftrightarrow>
         (\<exists>cycle<max_cycles_num g. \<exists>un<units_num g.
             unit_reserved g a cycle un \<and> unit_reserved g b cycle un)"
proof
  let ?B = "chars_num g * 8"
  assume "\<exists>n<max_cycles_num g * chars_num g * 8. TEST_BIT a n \<and> TEST_BIT b n"
  then obtain n where n: "n < max_cycles_num g * ?B" "TEST_BIT a n" "TEST_BIT b n"
    by (auto simp: mult.assoc)
  then have pos: "0 < ?B" by (cases "?B = 0") simp_all
  have c: "n div ?B < max_cycles_num g" using n(1) pos by (simp add: div_less_iff_less_mult)
  have v: "n mod ?B < ?B" using pos by simp
  have e: "n div ?B * cycle_bits g + n mod ?B = n"
    unfolding cycle_bits_chars by (rule div_mult_mod_eq)
  have ra: "unit_reserved g a (n div ?B) (n mod ?B)" and rb: "unit_reserved g b (n div ?B) (n mod ?B)"
    using n(2,3) e by (simp_all add: unit_reserved_def)
  have "n mod ?B < units_num g"
    using uo c v rb unfolding units_only_def cycle_bits_chars by blast
  then show "\<exists>cycle<max_cycles_num g. \<exists>un<units_num g.
             unit_reserved g a cycle un \<and> unit_reserved g b cycle un"
    using c ra rb by blast
next
  let ?B = "chars_num g * 8"
  assume "\<exists>cycle<max_cycles_num g. \<exists>un<units_num g.
             unit_reserved g a cycle un \<and> unit_reserved g b cycle un"
  then obtain c u where cu: "c < max_cycles_num g" "u < units_num g"
    "unit_reserved g a c u" "unit_reserved g b c u" by blast
  have "u < ?B" using cu(2) units_le_cycle_bits [OF sz] by (simp add: cycle_bits_chars)
  then have "c * ?B + u < Suc c * ?B" by simp
  also have "\<dots> \<le> max_cycles_num g * ?B" using cu(1) by (intro mult_le_mono1) simp
  finally have "c * ?B + u < max_cycles_num g * chars_num g * 8" by (simp add: mult.assoc)
  moreover have "TEST_BIT a (c * ?B + u)" "TEST_BIT b (c * ?B + u)"
    using cu(3,4) by (simp_all add: unit_reserved_def cycle_bits_chars)
  ultimately show "\<exists>n<max_cycles_num g * chars_num g * 8. TEST_BIT a n \<and> TEST_BIT b n" by blast
qed

lemma reservs_chars: "els_in_reservs g * sizeof_set_el g = max_cycles_num g * chars_num g"
  by (simp add: els_in_reservs_def chars_num_def mult_ac)

lemma units_only_chars:
  "units_only g b \<longleftrightarrow>
     (\<forall>cycle<max_cycles_num g. \<forall>k\<in>set [0 ..< chars_num g]. \<forall>i<8.
         bit (drop (cycle * chars_num g) b ! k) i \<longrightarrow> k * 8 + i < units_num g)"
  if "length b = max_cycles_num g * chars_num g"
proof -
  have "\<And>cycle. cycle < max_cycles_num g \<Longrightarrow> cycle * chars_num g \<le> length b"
    using that by simp
  then have "units_only g b \<longleftrightarrow>
     (\<forall>cycle<max_cycles_num g. \<forall>n<chars_num g * 8.
         TEST_BIT (drop (cycle * chars_num g) b) n \<longrightarrow> n < units_num g)"
    by (simp add: units_only_def cycle_bits_chars unit_reserved_drop)
  also have "\<dots> \<longleftrightarrow> (\<forall>cycle<max_cycles_num g. \<forall>k\<in>set [0 ..< chars_num g]. \<forall>i<8.
         bit (drop (cycle * chars_num g) b ! k) i \<longrightarrow> k * 8 + i < units_num g)"
    using scan_bits [of "chars_num g" _ "\<lambda>n. n < units_num g"] by simp
  finally show ?thesis .
qed

text \<open>
  Claim C1, as amended.  For reservation sets \<open>a\<close> and \<open>b\<close> of the allocated size,
  \<open>b\<close> with no bit set beyond the unit numbers, \<^verbatim>\<open>reserv_sets_are_intersected\<close>
  returns nonzero exactly when some unit is reserved on the same cycle in both, or
  on some cycle a unit reserved in the second operand \<open>b\<close> is at odds with the first:
  a unit of its exclusion set is reserved on that cycle in \<open>a\<close>; or it has presence
  patterns and none is wholly reserved on that cycle in \<open>a\<close>; or it has final
  presence patterns and none is wholly reserved on that cycle in the union; or one
  of its absence patterns is wholly reserved on that cycle in \<open>a\<close>; or one of its
  final absence patterns is wholly reserved on that cycle in the union.  The sets of
  the units reserved in the first operand are not consulted.
\<close>

theorem reserv_sets_are_intersected_second_operand:
  assumes "tables_formed g"
    and "length a = els_in_reservs g * sizeof_set_el g"
    and "length b = els_in_reservs g * sizeof_set_el g"
    and "units_only g b"
  shows "reserv_sets_are_intersected g (Some a) (Some b) =
           Inr ((\<exists>cycle<max_cycles_num g. \<exists>un<units_num g.
                    unit_reserved g a cycle un \<and> unit_reserved g b cycle un)
                \<or> (\<exists>cycle<max_cycles_num g. \<exists>un<units_num g.
                      unit_reserved g b cycle un \<and> unit_conflict g a b cycle un))"
proof -
  have sz: "0 < sizeof_set_el g" using assms(1) by (simp add: tables_formed_def)
  have la: "length a = max_cycles_num g * chars_num g"
    and lb: "length b = max_cycles_num g * chars_num g"
    using assms(2,3) by (simp_all add: reservs_chars)
  have first: "list_ex (\<lambda>el. (a ! el) AND (b ! el) \<noteq> 0) [0 ..< els_in_reservs g * sizeof_set_el g]
          \<longleftrightarrow> (\<exists>cycle<max_cycles_num g. \<exists>un<units_num g.
                    unit_reserved g a cycle un \<and> unit_reserved g b cycle un)"
    unfolding chars_intersect reservs_chars by (rule common_bit_iff [OF sz assms(4)])
  have cyc: "list_ex (intersected_on_cycle g a b (reserv_sets_or a b))
               (if els_in_cycle_reserv g = 0 then [] else [0 ..< max_cycles_num g])
          \<longleftrightarrow> (\<exists>cycle<max_cycles_num g. \<exists>un<units_num g.
                      unit_reserved g b cycle un \<and> unit_conflict g a b cycle un)"
  proof (cases "els_in_cycle_reserv g = 0")
    case True
    then have "cycle_bits g = 0" by (simp add: cycle_bits_def)
    then have "units_num g = 0" using units_le_cycle_bits [OF sz] by simp
    then show ?thesis using True by simp
  next
    case False
    have "list_ex (intersected_on_cycle g a b (reserv_sets_or a b)) [0 ..< max_cycles_num g]
          \<longleftrightarrow> (\<exists>cycle<max_cycles_num g. intersected_on_cycle g a b (reserv_sets_or a b) cycle)"
      by (auto simp: list_ex_iff)
    also have "\<dots> \<longleftrightarrow> (\<exists>cycle<max_cycles_num g. \<exists>un<units_num g.
                      unit_reserved g b cycle un \<and> unit_conflict g a b cycle un)"
      using intersected_on_cycle_iff [OF assms(1) la lb assms(4)] by blast
    finally show ?thesis using False by simp
  qed
  have "reserv_sets_are_intersected g (Some a) (Some b) =
          Inr (list_ex (\<lambda>el. (a ! el) AND (b ! el) \<noteq> 0)
                  [0 ..< els_in_reservs g * sizeof_set_el g]
               \<or> list_ex (intersected_on_cycle g a b (reserv_sets_or a b))
                    (if els_in_cycle_reserv g = 0 then [] else [0 ..< max_cycles_num g]))"
    by (simp add: reserv_sets_are_intersected_def Let_def)
  then show ?thesis unfolding first cyc .
qed

theorem reserv_sets_are_intersected_second_operand_witness:
  "reserv_sets_are_intersected absence_globals (Some [2, 0, 0, 0]) (Some [1, 0, 0, 0]) = Inr True"
proof -
  have 1: "tables_formed absence_globals"
    by (simp add: tables_formed_def absence_globals_def chars_num_def els_in_cycle_reserv_def
        CHAR_BIT_def)
  have 2: "length [2, 0, 0, 0 :: 8 word]
             = els_in_reservs absence_globals * sizeof_set_el absence_globals"
    and 3: "length [1, 0, 0, 0 :: 8 word]
             = els_in_reservs absence_globals * sizeof_set_el absence_globals"
    by (simp_all add: absence_globals_def els_in_reservs_def els_in_cycle_reserv_def CHAR_BIT_def)
  have 4: "units_only absence_globals [1, 0, 0, 0]"
    by (subst units_only_chars)
       (simp_all add: absence_globals_def chars_num_def els_in_cycle_reserv_def CHAR_BIT_def
          bit_1_iff list_all_iff [symmetric] upt_rec [of _ "numeral _"] del: set_upt)
  have "pattern_reserved absence_globals [2, 0, 0, 0] [2, 0, 0, 0] 0"
    using presence_pattern_holds_iff [of 0 absence_globals "[2, 0, 0, 0]" "[2, 0, 0, 0]"]
    by (simp add: presence_pattern_holds_def list_all_iff)
  then have "unit_reserved absence_globals [1, 0, 0, 0] 0 0
             \<and> unit_conflict absence_globals [2, 0, 0, 0] [1, 0, 0, 0] 0 0"
    by (simp add: unit_reserved_def unit_conflict_def TEST_BIT_def absence_globals_def
        CHAR_BIT_def)
  then have "\<exists>cycle<max_cycles_num absence_globals. \<exists>un<units_num absence_globals.
               unit_reserved absence_globals [1, 0, 0, 0] cycle un
               \<and> unit_conflict absence_globals [2, 0, 0, 0] [1, 0, 0, 0] cycle un"
    by (intro exI [of _ 0] conjI) (simp_all add: absence_globals_def)
  with reserv_sets_are_intersected_second_operand [OF 1 2 3 4]
  show ?thesis by simp
qed

text \<open>
  Claim C1 as stated fails: unit \<open>u\<close> is reserved in the first operand, its absence
  pattern \<open>{v}\<close> is reserved in the union of the operands, and no unit is reserved
  in both; the function returns zero, because \<open>v\<close>, the only unit of the second
  operand, has no sets.
\<close>

theorem reserv_sets_are_intersected_either_operand_counterexample:
  "reserv_sets_are_intersected absence_globals (Some [1, 0, 0, 0]) (Some [2, 0, 0, 0]) = Inr False
   \<and> test_unit_reserv absence_globals [1, 0, 0, 0] 0 0 = Inr True
   \<and> absence_list (units_array absence_globals ! 0) = [[1]]
   \<and> unit_absence_set_table absence_globals ! 0 = [[2, 0, 0, 0]]
   \<and> test_unit_reserv absence_globals [2, 0, 0, 0] 0 1 = Inr True
   \<and> test_unit_reserv absence_globals (reserv_sets_or [1, 0, 0, 0] [2, 0, 0, 0]) 0 1 = Inr True"
  by (simp add: reserv_sets_are_intersected_def absence_globals_def chars_num_def
      els_in_cycle_reserv_def CHAR_BIT_def els_in_reservs_def intersected_on_cycle_def
      get_excl_set_def check_presence_pattern_sets_def check_absence_pattern_sets_def
      reserv_sets_or_def absence_pattern_holds_def presence_pattern_holds_def
      upt_rec [of _ "numeral _"] upt_rec [of 0 1] upt_rec [of 1 1] bit_numeral_word_iff
      bit_1_iff test_unit_reserv_def TEST_BIT_def plain_unit_def)


subsection \<open>Alternatives and the number of state alternatives\<close>

text \<open>
  Claim C6, as amended.  For the machine with one unit \<open>u\<close> and one instruction
  \<open>i\<close> with the alternatives \<^verbatim>\<open>u\<close> and \<^verbatim>\<open>u, u\<close>: with \<^verbatim>\<open>ndfa_flag\<close> set,
  \<^verbatim>\<open>make_automaton\<close> gives the start state two arcs marked by \<open>i\<close>, to the states of
  the two alternatives, and \<^verbatim>\<open>NDFA_to_DFA\<close> leaves one arc marked by \<open>i\<close>, to a state
  composed of these two; with \<^verbatim>\<open>ndfa_flag\<close> zero, \<^verbatim>\<open>make_automaton\<close> adds only the arc
  of the first alternative, its \<open>state_alts\<close> is 2, the number of alternatives that
  can be taken from the start state, and \<^verbatim>\<open>NDFA_to_DFA\<close> keeps the arc as it is.
\<close>

theorem one_unit_alternatives_arcs:
  "map_option (map to_state)
       (start_arcs (make_automaton 3 one_unit_globals True 2 one_unit_machine) 0) = Some [0, 1]
   \<and> map_option (map to_state)
       (start_arcs (build_automaton 5 one_unit_globals True 2 one_unit_decls one_unit_machine) 0)
       = Some [3]
   \<and> components_of (build_automaton 5 one_unit_globals True 2 one_unit_decls one_unit_machine) 3
       = Some [0, 1]
   \<and> start_arcs (make_automaton 3 one_unit_globals False 2 one_unit_machine) 0
       = Some [\<lparr>to_state = 1, insn = 0, state_alts = 2\<rparr>]
   \<and> start_arcs (build_automaton 5 one_unit_globals False 2 one_unit_decls one_unit_machine) 0
       = Some [\<lparr>to_state = 1, insn = 0, state_alts = 2\<rparr>]"
  by code_simp

text \<open>
  Claim C6 as stated fails: the arc of the start state marked by \<open>i\<close> has
  \<open>state_alts\<close> 1 with \<^verbatim>\<open>ndfa_flag\<close> set (the number of arcs that \<^verbatim>\<open>create_composed_state\<close>
  removed) and 2 with \<^verbatim>\<open>ndfa_flag\<close> zero, where the claim has 2 and 1.
\<close>

theorem one_unit_state_alts_counterexample:
  "map_option (map state_alts)
       (start_arcs (build_automaton 5 one_unit_globals True 2 one_unit_decls one_unit_machine) 0)
       = Some [1]
   \<and> map_option (map state_alts)
       (start_arcs (build_automaton 5 one_unit_globals False 2 one_unit_decls one_unit_machine) 0)
       = Some [2]"
  by code_simp


subsection \<open>The shape of transformed reservation expressions\<close>

lemma collect_same:
  "(\<And>x. x \<in> set xs \<Longrightarrow> f x = Some (Inr x)) \<Longrightarrow> collect (map f xs) = Some (Inr xs)"
  by (induction xs) simp_all

lemma collect_Inr:
  "collect (map f xs) = Some (Inr ys) \<Longrightarrow> list_all2 (\<lambda>x y. f x = Some (Inr y)) xs ys"
proof (induction xs arbitrary: ys)
  case Nil
  then show ?case by simp
next
  case (Cons x xs)
  then show ?case
    by (auto split: option.splits sum.splits)
qed

lemma collect_all:
  assumes "collect (map f xs) = Some (Inr ys)"
    and "\<And>x y. x \<in> set xs \<Longrightarrow> f x = Some (Inr y) \<Longrightarrow> Q y"
  shows "(\<forall>y\<in>set ys. Q y) \<and> length ys = length xs"
proof -
  have l: "list_all2 (\<lambda>x y. f x = Some (Inr y)) xs ys" using collect_Inr [OF assms(1)] .
  have "\<forall>y\<in>set ys. Q y"
  proof
    fix y assume "y \<in> set ys"
    then obtain i where i: "i < length ys" "ys ! i = y" by (auto simp: in_set_conv_nth)
    then have "f (xs ! i) = Some (Inr y)" "xs ! i \<in> set xs"
      using l by (auto simp: list_all2_conv_all_nth)
    then show "Q y" using assms(2) by blast
  qed
  then show ?thesis using l by (simp add: list_all2_lengthD)
qed

lemma copy_insn_regexp_plain:
  "\<not> has_reserv r \<Longrightarrow> copy_insn_regexp n ds r = Some (Inr r)"
proof (induction r)
  case (rm_sequence rs)
  then have "collect (map (copy_insn_regexp n ds) rs) = Some (Inr rs)"
    by (intro collect_same) (auto simp: list_ex_iff)
  then show ?case by simp
next
  case (rm_allof rs)
  then have "collect (map (copy_insn_regexp n ds) rs) = Some (Inr rs)"
    by (intro collect_same) (auto simp: list_ex_iff)
  then show ?case by simp
next
  case (rm_oneof rs)
  then have "collect (map (copy_insn_regexp n ds) rs) = Some (Inr rs)"
    by (intro collect_same) (auto simp: list_ex_iff)
  then show ?case by simp
qed simp_all

lemma plain_no_reserv: "plain r \<Longrightarrow> \<not> has_reserv r"
  by (induction r) (auto simp: list_ex_iff list_all_iff)

lemma plain_no_repeat: "plain r \<Longrightarrow> \<not> has_repeat r"
  by (induction r) (auto simp: list_ex_iff list_all_iff)

lemma plain_sequences_nonempty: "plain r \<Longrightarrow> sequences_nonempty r"
  by (induction r) (auto simp: list_ex_iff list_all_iff)

lemma plain_iff: "plain r \<longleftrightarrow> sequences_nonempty r \<and> \<not> has_reserv r \<and> \<not> has_repeat r"
  by (induction r) (auto simp: list_ex_iff list_all_iff)

lemma copy_insn_regexps_plain:
  "list_all plain rs \<Longrightarrow> copy_insn_regexps n ds rs = Some (Inr rs)"
  unfolding copy_insn_regexps_def
  by (intro collect_same) (auto simp: list_all_iff copy_insn_regexp_plain plain_no_reserv)

lemma copy_insn_regexp_nonempty:
  "reservations_nonempty ds \<Longrightarrow> sequences_nonempty r \<Longrightarrow>
   copy_insn_regexp n ds r = Some (Inr r') \<Longrightarrow> sequences_nonempty r' \<and> \<not> has_reserv r'"
proof (induction n ds r arbitrary: r' rule: copy_insn_regexp.induct)
  case (1 n ds k)
  from "1.prems"(3) obtain d r0 n' where d: "k < length ds" "ds ! k = dm_reserv d"
    "reserv_decl.regexp d = Some r0" "n = Suc n'" "copy_insn_regexp n' ds r0 = Some (Inr r')"
    by (auto split: if_splits decl.splits option.splits nat.splits)
  have "sequences_nonempty r0"
    using "1.prems"(1) d(1,2,3) by (auto simp: reservations_nonempty_def list_all_length split: decl.splits option.splits)
  then show ?case using "1.IH" [OF d(1,2,3,4) "1.prems"(1) _ d(5)] by simp
next
  case (2 n ds u)
  then show ?case by auto
next
  case (3 n ds r repeat_num)
  then show ?case by (auto split: option.splits sum.splits)
next
  case (4 n ds rs)
  from "4.prems"(3) obtain rs' where rs': "collect (map (copy_insn_regexp n ds) rs) = Some (Inr rs')"
    "r' = rm_sequence rs'"
    by (auto split: option.splits sum.splits)
  have l: "(\<forall>y\<in>set rs'. sequences_nonempty y \<and> \<not> has_reserv y) \<and> length rs' = length rs"
  proof (rule collect_all [OF rs'(1)])
    fix x y assume x: "x \<in> set rs" and c: "copy_insn_regexp n ds x = Some (Inr y)"
    have "sequences_nonempty x" using "4.prems"(2) x by (simp add: list_all_iff)
    from "4.IH" [OF x "4.prems"(1) this c]
    show "sequences_nonempty y \<and> \<not> has_reserv y" .
  qed
  have "rs' \<noteq> []" using l "4.prems"(2) by auto
  then show ?case using l rs'(2) by (auto simp: list_all_iff list_ex_iff)
next
  case (5 n ds rs)
  from "5.prems"(3) obtain rs' where rs': "collect (map (copy_insn_regexp n ds) rs) = Some (Inr rs')"
    "r' = rm_allof rs'"
    by (auto split: option.splits sum.splits)
  have l: "(\<forall>y\<in>set rs'. sequences_nonempty y \<and> \<not> has_reserv y) \<and> length rs' = length rs"
  proof (rule collect_all [OF rs'(1)])
    fix x y assume x: "x \<in> set rs" and c: "copy_insn_regexp n ds x = Some (Inr y)"
    have "sequences_nonempty x" using "5.prems"(2) x by (simp add: list_all_iff)
    from "5.IH" [OF x "5.prems"(1) this c]
    show "sequences_nonempty y \<and> \<not> has_reserv y" .
  qed
  show ?case using l rs'(2) by (auto simp: list_all_iff list_ex_iff)
next
  case (6 n ds rs)
  from "6.prems"(3) obtain rs' where rs': "collect (map (copy_insn_regexp n ds) rs) = Some (Inr rs')"
    "r' = rm_oneof rs'"
    by (auto split: option.splits sum.splits)
  have l: "(\<forall>y\<in>set rs'. sequences_nonempty y \<and> \<not> has_reserv y) \<and> length rs' = length rs"
  proof (rule collect_all [OF rs'(1)])
    fix x y assume x: "x \<in> set rs" and c: "copy_insn_regexp n ds x = Some (Inr y)"
    have "sequences_nonempty x" using "6.prems"(2) x by (simp add: list_all_iff)
    from "6.IH" [OF x "6.prems"(1) this c]
    show "sequences_nonempty y \<and> \<not> has_reserv y" .
  qed
  show ?case using l rs'(2) by (auto simp: list_all_iff list_ex_iff)
next
  case (7 n ds)
  then show ?case by auto
qed


lemma collect_map:
  "(\<And>x. x \<in> set xs \<Longrightarrow> f x = Some (Inr (g x))) \<Longrightarrow> collect (map f xs) = Some (Inr (map g xs))"
  by (induction xs) simp_all

lemma first_index:
  assumes "list_ex P rs"
  shows "length (takeWhile (\<lambda>r. \<not> P r) rs) < length rs"
    and "P (rs ! length (takeWhile (\<lambda>r. \<not> P r) rs))"
proof -
  have "takeWhile (\<lambda>r. \<not> P r) rs \<noteq> rs"
    using assms by (auto simp: takeWhile_eq_all_conv list_ex_iff)
  then show l: "length (takeWhile (\<lambda>r. \<not> P r) rs) < length rs"
    by (metis length_takeWhile_le le_neq_implies_less takeWhile_eq_take take_all_iff order_refl)
  show "P (rs ! length (takeWhile (\<lambda>r. \<not> P r) rs))"
    using nth_length_takeWhile [OF l] by simp
qed

lemma plain_operands: "plain r \<Longrightarrow> list_all plain (operands r)"
  by (cases r) simp_all

lemma spliced_plain:
  assumes "list_all plain rs" and "list_all plain ms"
  shows "list_all plain (take i rs @ ms @ drop (Suc i) rs)"
  using assms by (auto simp: list_all_iff dest: in_set_takeD in_set_dropD)

lemma flatten_operands_plain:
  assumes "list_all plain rs" and "list_ex sm rs"
    and "flatten_operands n ds sm rs = Some (Inr rs')"
  shows "list_all plain rs' \<and> rs' \<noteq> []"
proof -
  let ?i = "length (takeWhile (\<lambda>r. \<not> sm r) rs)"
  have i: "?i < length rs" using first_index(1) [OF assms(2)] .
  have pn: "plain (rs ! ?i)" using assms(1) i by (simp add: list_all_length)
  have big: "\<not> (length (operands (rs ! ?i)) \<le> 1 \<or> length rs \<le> 1)"
    using assms(3) by (auto simp: flatten_operands_def Let_def split: if_splits)
  let ?out = "take ?i rs @ operands (rs ! ?i) @ drop (Suc ?i) rs"
  have po: "list_all plain ?out"
    by (rule spliced_plain [OF assms(1) plain_operands [OF pn]])
  have "flatten_operands n ds sm rs = Some (Inr ?out)"
    using big copy_insn_regexps_plain [OF po] by (simp add: flatten_operands_def Let_def)
  then have "rs' = ?out" using assms(3) by simp
  moreover have "?out \<noteq> []" using big by auto
  ultimately show ?thesis using po by simp
qed

lemma transform_2_node:
  assumes "plain r" and "transform_2 n ds r q = Some (Inr (r', p'))"
  shows "plain r' \<and> (q \<longrightarrow> p')
         \<and> (\<not> p' \<longrightarrow> r' = r \<and> (case r of
                                   rm_sequence rs \<Rightarrow> \<not> list_ex is_sequence rs
                                 | rm_allof rs \<Rightarrow> \<not> list_ex is_allof rs
                                 | rm_oneof rs \<Rightarrow> \<not> list_ex is_oneof rs
                                 | _ \<Rightarrow> True))"
proof (cases r)
  case (rm_sequence rs)
  show ?thesis
  proof (cases "list_ex is_sequence rs")
    case True
    then obtain rs' where rs': "flatten_operands n ds is_sequence rs = Some (Inr rs')"
      "r' = rm_sequence rs'" "p'"
      using assms(2) rm_sequence
      by (auto simp: transform_2_def split: option.splits sum.splits)
    have "list_all plain rs" using assms(1) rm_sequence by simp
    from flatten_operands_plain [OF this True rs'(1)] rs'(2,3) show ?thesis by simp
  next
    case False
    then show ?thesis using assms rm_sequence by (auto simp: transform_2_def)
  qed
next
  case (rm_allof rs)
  show ?thesis
  proof (cases "list_ex is_allof rs")
    case True
    then obtain rs' where rs': "flatten_operands n ds is_allof rs = Some (Inr rs')"
      "r' = rm_allof rs'" "p'"
      using assms(2) rm_allof
      by (auto simp: transform_2_def split: option.splits sum.splits)
    have "list_all plain rs" using assms(1) rm_allof by simp
    from flatten_operands_plain [OF this True rs'(1)] rs'(2,3) show ?thesis by simp
  next
    case False
    then show ?thesis using assms rm_allof by (auto simp: transform_2_def)
  qed
next
  case (rm_oneof rs)
  show ?thesis
  proof (cases "list_ex is_oneof rs")
    case True
    then obtain rs' where rs': "flatten_operands n ds is_oneof rs = Some (Inr rs')"
      "r' = rm_oneof rs'" "p'"
      using assms(2) rm_oneof
      by (auto simp: transform_2_def split: option.splits sum.splits)
    have "list_all plain rs" using assms(1) rm_oneof by simp
    from flatten_operands_plain [OF this True rs'(1)] rs'(2,3) show ?thesis by simp
  next
    case False
    then show ?thesis using assms rm_oneof by (auto simp: transform_2_def)
  qed
qed (use assms in \<open>auto simp: transform_2_def\<close>)

lemma traverse_stop:
  "fold (\<lambda>r acc. case acc of
                    None \<Rightarrow> None
                  | Some (Inl e) \<Rightarrow> Some (Inl e)
                  | Some (Inr (rs', p')) \<Rightarrow>
                      (case f r p' of
                         None \<Rightarrow> None
                       | Some (Inl e) \<Rightarrow> Some (Inl e)
                       | Some (Inr (r', p'')) \<Rightarrow> Some (Inr (rs' @ [r'], p''))))
     rs None = None"
  "fold (\<lambda>r acc. case acc of
                    None \<Rightarrow> None
                  | Some (Inl e) \<Rightarrow> Some (Inl e)
                  | Some (Inr (rs', p')) \<Rightarrow>
                      (case f r p' of
                         None \<Rightarrow> None
                       | Some (Inl e) \<Rightarrow> Some (Inl e)
                       | Some (Inr (r', p'')) \<Rightarrow> Some (Inr (rs' @ [r'], p''))))
     rs (Some (Inl e)) = Some (Inl e)"
  by (induction rs) simp_all

lemma traverse_fold:
  assumes "fold (\<lambda>r acc. case acc of
                    None \<Rightarrow> None
                  | Some (Inl e) \<Rightarrow> Some (Inl e)
                  | Some (Inr (rs', p')) \<Rightarrow>
                      (case f r p' of
                         None \<Rightarrow> None
                       | Some (Inl e) \<Rightarrow> Some (Inl e)
                       | Some (Inr (r', p'')) \<Rightarrow> Some (Inr (rs' @ [r'], p''))))
             rs (Some (Inr (done, p))) = Some (Inr (out, q))"
    and "\<And>r p r' p'. r \<in> set rs \<Longrightarrow> f r p = Some (Inr (r', p'))
            \<Longrightarrow> B r' \<and> (p \<longrightarrow> p') \<and> (\<not> p' \<longrightarrow> r' = r \<and> C r)"
  shows "\<exists>new. out = done @ new \<and> length new = length rs \<and> (\<forall>x\<in>set new. B x)
           \<and> (p \<longrightarrow> q) \<and> (\<not> q \<longrightarrow> new = rs \<and> (\<forall>r\<in>set rs. C r))"
  using assms
proof (induction rs arbitrary: "done" p)
  case Nil
  then show ?case by simp
next
  case (Cons r rs)
  show ?case
  proof (cases "f r p")
    case None
    then show ?thesis using Cons.prems(1) by (simp add: traverse_stop)
  next
    case (Some a)
    show ?thesis
    proof (cases a)
      case (Inl e)
      then show ?thesis using Cons.prems(1) Some by (simp add: traverse_stop)
    next
      case (Inr b)
      obtain r1 p1 where b: "b = (r1, p1)" by (cases b)
      have fr: "f r p = Some (Inr (r1, p1))" using Some Inr b by simp
      have 1: "fold (\<lambda>r acc. case acc of
                    None \<Rightarrow> None
                  | Some (Inl e) \<Rightarrow> Some (Inl e)
                  | Some (Inr (rs', p')) \<Rightarrow>
                      (case f r p' of
                         None \<Rightarrow> None
                       | Some (Inl e) \<Rightarrow> Some (Inl e)
                       | Some (Inr (r', p'')) \<Rightarrow> Some (Inr (rs' @ [r'], p''))))
             rs (Some (Inr (done @ [r1], p1))) = Some (Inr (out, q))"
        using Cons.prems(1) fr by simp
      have 2: "\<And>x p r' p'. x \<in> set rs \<Longrightarrow> f x p = Some (Inr (r', p'))
            \<Longrightarrow> B r' \<and> (p \<longrightarrow> p') \<and> (\<not> p' \<longrightarrow> r' = x \<and> C x)"
      proof -
        fix x p r' p' assume "x \<in> set rs" "f x p = Some (Inr (r', p'))"
        then show "B r' \<and> (p \<longrightarrow> p') \<and> (\<not> p' \<longrightarrow> r' = x \<and> C x)"
          using Cons.prems(2) [of x p r' p'] by simp
      qed
      obtain new where new: "out = (done @ [r1]) @ new" "length new = length rs"
        "\<forall>x\<in>set new. B x" "p1 \<longrightarrow> q" "\<not> q \<longrightarrow> new = rs \<and> (\<forall>r\<in>set rs. C r)"
        using Cons.IH [OF 1 2] by blast
      have h: "B r1 \<and> (p \<longrightarrow> p1) \<and> (\<not> p1 \<longrightarrow> r1 = r \<and> C r)"
        using Cons.prems(2) [of r p r1 p1] fr by simp
      show ?thesis
        using new h by (intro exI [of _ "r1 # new"]) auto
    qed
  qed
qed


lemma transform_1_node:
  assumes "case r of rm_repeat operand k \<Rightarrow> plain operand | _ \<Rightarrow> plain r"
    and "transform_1 n ds r q = Some (Inr (r', p'))"
  shows "plain r' \<and> (q \<longrightarrow> p') \<and> (\<not> p' \<longrightarrow> r' = r)"
proof (cases r)
  case (rm_repeat operand k)
  then have po: "plain operand" using assms(1) by simp
  have k: "\<not> k \<le> 1" using assms(2) rm_repeat by (auto simp: transform_1_def split: if_splits)
  have pl: "list_all plain (replicate (nat k) operand)" using po by (simp add: list_all_iff)
  have "transform_1 n ds r q = Some (Inr (rm_sequence (replicate (nat k) operand), True))"
    using k rm_repeat copy_insn_regexps_plain [OF pl] by (simp add: transform_1_def)
  then have "r' = rm_sequence (replicate (nat k) operand)" "p'" using assms(2) by simp_all
  moreover have "replicate (nat k) operand \<noteq> []" using k by simp
  ultimately show ?thesis using pl by simp
qed (use assms in \<open>auto simp: transform_1_def\<close>)

lemma distribute_oneof_plain:
  assumes "list_all plain rs" and "list_ex is_oneof rs"
    and "node = rm_sequence \<or> node = rm_allof"
    and "distribute_oneof n ds node rs = Some (Inr r')"
  shows "plain r' \<and> is_oneof r'"
proof -
  let ?i = "length (takeWhile (\<lambda>r. \<not> is_oneof r) rs)"
  let ?row = "\<lambda>alt. take ?i rs @ [alt] @ drop (Suc ?i) rs"
  have i: "?i < length rs" using first_index(1) [OF assms(2)] .
  have pn: "plain (rs ! ?i)" using assms(1) i by (simp add: list_all_length)
  have big: "\<not> (length (operands (rs ! ?i)) \<le> 1 \<or> length rs \<le> 1)"
    using assms(4) by (auto simp: distribute_oneof_def Let_def split: if_splits)
  have rows: "\<And>alt. alt \<in> set (operands (rs ! ?i)) \<Longrightarrow> list_all plain (?row alt)"
  proof -
    fix alt assume "alt \<in> set (operands (rs ! ?i))"
    then have "list_all plain [alt]" using plain_operands [OF pn] by (simp add: list_all_iff)
    from spliced_plain [OF assms(1) this] show "list_all plain (?row alt)" .
  qed
  have "collect (map (\<lambda>alt. copy_insn_regexps n ds (?row alt)) (operands (rs ! ?i)))
          = Some (Inr (map ?row (operands (rs ! ?i))))"
  proof (rule collect_map)
    fix alt assume "alt \<in> set (operands (rs ! ?i))"
    from copy_insn_regexps_plain [OF rows [OF this]]
    show "copy_insn_regexps n ds (?row alt) = Some (Inr (?row alt))" .
  qed
  then have "distribute_oneof n ds node rs
               = Some (Inr (rm_oneof (map node (map ?row (operands (rs ! ?i))))))"
    using big by (simp add: distribute_oneof_def Let_def)
  then have r': "r' = rm_oneof (map node (map ?row (operands (rs ! ?i))))"
    using assms(4) by simp
  have "\<And>alt. alt \<in> set (operands (rs ! ?i)) \<Longrightarrow> plain (node (?row alt))"
    using rows assms(3) by auto
  then show ?thesis unfolding r' by (simp add: list_all_iff)
qed

lemma allof_operands_at_plain:
  "list_all plain rs \<Longrightarrow> list_all plain (allof_operands_at rs i)"
proof -
  assume a: "list_all plain rs"
  have "\<And>r. r \<in> set rs \<Longrightarrow> i < length (operands r) \<Longrightarrow> plain (operands r ! i)"
  proof -
    fix r assume "r \<in> set rs" "i < length (operands r)"
    then show "plain (operands r ! i)"
      using a plain_operands [of r] by (simp add: list_all_iff list_all_length)
  qed
  then show ?thesis using a by (auto simp: allof_operands_at_def list_all_iff)
qed

lemma sequence_of_allofs_plain:
  assumes "list_all plain rs" and "m \<noteq> 0"
  shows "plain (sequence_of_allofs rs m)"
proof -
  have "\<And>i. plain (if length (allof_operands_at rs i) = 1 then last (allof_operands_at rs i)
                 else rm_allof (allof_operands_at rs i))"
  proof -
    fix i
    have p: "list_all plain (allof_operands_at rs i)"
      by (rule allof_operands_at_plain [OF assms(1)])
    show "plain (if length (allof_operands_at rs i) = 1 then last (allof_operands_at rs i)
                 else rm_allof (allof_operands_at rs i))"
    proof (cases "length (allof_operands_at rs i) = 1")
      case True
      then have "allof_operands_at rs i \<noteq> []" by auto
      then have "last (allof_operands_at rs i) \<in> set (allof_operands_at rs i)" by simp
      then show ?thesis using p True by (simp add: list_all_iff)
    next
      case False
      then show ?thesis using p by simp
    qed
  qed
  then have "list_all plain
                (map (\<lambda>i. if length (allof_operands_at rs i) = 1 then last (allof_operands_at rs i)
                           else rm_allof (allof_operands_at rs i)) [0 ..< m])"
    unfolding list_all_iff by (metis (no_types, lifting) imageE list.set_map)
  moreover have "[0 ..< m] \<noteq> []" using assms(2) by simp
  ultimately show ?thesis unfolding sequence_of_allofs_def by simp
qed

lemma transform_3_node:
  assumes "plain r" and "transform_3 n ds r q = Some (Inr (r', p'))"
  shows "plain r' \<and> (q \<longrightarrow> p')
         \<and> (\<not> p' \<longrightarrow> r' = r \<and> (case r of
                                   rm_sequence rs \<Rightarrow> \<not> list_ex is_oneof rs
                                 | rm_allof rs \<Rightarrow> \<not> list_ex is_oneof rs
                                                  \<and> max_seq_length_loop rs 0 = 0
                                 | _ \<Rightarrow> True))"
proof (cases r)
  case (rm_sequence rs)
  show ?thesis
  proof (cases "list_ex is_oneof rs")
    case True
    then obtain r1 where r1: "distribute_oneof n ds rm_sequence rs = Some (Inr r1)"
      "r' = r1" "p'"
      using assms(2) rm_sequence
      by (auto simp: transform_3_def split: option.splits sum.splits)
    have "list_all plain rs" using assms(1) rm_sequence by simp
    from distribute_oneof_plain [OF this True _ r1(1)] r1(2,3) show ?thesis by simp
  next
    case False
    then show ?thesis using assms rm_sequence by (auto simp: transform_3_def)
  qed
next
  case (rm_allof rs)
  have prs: "list_all plain rs" using assms(1) rm_allof by simp
  show ?thesis
  proof (cases "list_ex is_oneof rs")
    case True
    then obtain r1 where r1: "distribute_oneof n ds rm_allof rs = Some (Inr r1)"
      using assms(2) rm_allof
      by (auto simp: transform_3_def split: option.splits sum.splits)
    have p1: "plain r1 \<and> is_oneof r1"
      using distribute_oneof_plain [OF prs True _ r1] by simp
    then have "\<not> is_allof r1" by (cases r1) simp_all
    then have "transform_3 n ds r q = Some (Inr (r1, True))"
      using rm_allof True r1 by (simp add: transform_3_def)
    then show ?thesis using assms(2) p1 by simp
  next
    case False
    show ?thesis
    proof (cases "max_seq_length_loop rs 0 = 0")
      case True
      then show ?thesis using assms rm_allof False by (auto simp: transform_3_def)
    next
      case nz: False
      then have "r' = sequence_of_allofs rs (max_seq_length_loop rs 0)" "p'"
        using assms(2) rm_allof False
        by (auto simp: transform_3_def Let_def split: if_splits)
      then show ?thesis using sequence_of_allofs_plain [OF prs nz] by simp
    qed
  qed
qed (use assms in \<open>auto simp: transform_3_def\<close>)

lemma pass_nary:
  assumes node: "node = rm_sequence \<or> node = rm_allof \<or> node = rm_oneof"
    and ih: "\<And>x p r' p'. x \<in> set rs \<Longrightarrow> regexp_transform_func func x p = Some (Inr (r', p'))
               \<Longrightarrow> plain r' \<and> (p \<longrightarrow> p') \<and> (\<not> p' \<longrightarrow> r' = x \<and> C x)"
    and at_node: "\<And>out q. plain (node out) \<Longrightarrow> func (node out) q = Some (Inr (r', p'))
               \<Longrightarrow> plain r' \<and> (q \<longrightarrow> p') \<and> (\<not> p' \<longrightarrow> r' = node out \<and> D out)"
    and ne: "node = rm_sequence \<longrightarrow> rs \<noteq> []"
    and run: "regexp_transform_func func (node rs) p = Some (Inr (r', p'))"
  shows "plain r' \<and> (p \<longrightarrow> p') \<and> (\<not> p' \<longrightarrow> r' = node rs \<and> (\<forall>x\<in>set rs. C x) \<and> D rs)"
proof -
  let ?F = "fold (\<lambda>r acc. case acc of
                    None \<Rightarrow> None
                  | Some (Inl e) \<Rightarrow> Some (Inl e)
                  | Some (Inr (rs', p')) \<Rightarrow>
                      (case regexp_transform_func func r p' of
                         None \<Rightarrow> None
                       | Some (Inl e) \<Rightarrow> Some (Inl e)
                       | Some (Inr (r', p'')) \<Rightarrow> Some (Inr (rs' @ [r'], p''))))
             rs (Some (Inr ([], p)))"
  have eq: "regexp_transform_func func (node rs) p =
              (case ?F of None \<Rightarrow> None | Some (Inl e) \<Rightarrow> Some (Inl e)
               | Some (Inr (rs', p')) \<Rightarrow> func (node rs') p')"
    using node by auto
  obtain out q where f: "?F = Some (Inr (out, q))"
    and t: "func (node out) q = Some (Inr (r', p'))"
    using run unfolding eq by (auto split: option.splits sum.splits)
  obtain new where new: "out = [] @ new" "length new = length rs" "\<forall>x\<in>set new. plain x"
    "p \<longrightarrow> q" "\<not> q \<longrightarrow> new = rs \<and> (\<forall>r\<in>set rs. C r)"
    using traverse_fold [OF f, of plain C] ih by blast
  have "plain (node out)"
    using new(1,2,3) ne node by (auto simp: list_all_iff)
  from at_node [OF this t] new show ?thesis by auto
qed


lemma nary_distinct: "rm_allof \<noteq> rm_sequence" "rm_oneof \<noteq> rm_sequence"
  by (auto simp: fun_eq_iff)

lemma pass_1:
  "sequences_nonempty r \<Longrightarrow>
   regexp_transform_func (transform_1 n ds) r p = Some (Inr (r', p')) \<Longrightarrow>
   plain r' \<and> (p \<longrightarrow> p') \<and> (\<not> p' \<longrightarrow> r' = r \<and> sequences_nonempty r)"
proof (induction r arbitrary: p r' p')
  case (rm_unit u)
  then show ?case using transform_1_node [of "rm_unit u" n ds p r' p'] by simp
next
  case (rm_reserv k)
  then show ?case by simp
next
  case rm_nothing
  then show ?case using transform_1_node [of rm_nothing n ds p r' p'] by simp
next
  case (rm_sequence rs)
  have "plain r' \<and> (p \<longrightarrow> p')
        \<and> (\<not> p' \<longrightarrow> r' = rm_sequence rs \<and> (\<forall>x\<in>set rs. sequences_nonempty x) \<and> True)"
  proof (rule pass_nary [where node = rm_sequence and func = "transform_1 n ds" and C = sequences_nonempty
        and D = "\<lambda>out. True"])
    show "rm_sequence = rm_sequence \<or> rm_sequence = rm_allof \<or> rm_sequence = rm_oneof" by simp
  next
    fix x p r' p' assume x: "x \<in> set rs"
      and c: "regexp_transform_func (transform_1 n ds) x p = Some (Inr (r', p'))"
    have "sequences_nonempty x" using rm_sequence.prems(1) x by (simp add: list_all_iff)
    from rm_sequence.IH [OF x this c]
    show "plain r' \<and> (p \<longrightarrow> p') \<and> (\<not> p' \<longrightarrow> r' = x \<and> sequences_nonempty x)" by simp
  next
    fix out q assume po: "plain (rm_sequence out)"
      and t: "transform_1 n ds (rm_sequence out) q = Some (Inr (r', p'))"
    show "plain r' \<and> (q \<longrightarrow> p') \<and> (\<not> p' \<longrightarrow> r' = rm_sequence out \<and> True)"
      using transform_1_node [of "rm_sequence out" n ds q r' p'] po t by simp
  next
    show "rm_sequence = rm_sequence \<longrightarrow> rs \<noteq> []" using rm_sequence.prems(1) by simp
  next
    show "regexp_transform_func (transform_1 n ds) (rm_sequence rs) p = Some (Inr (r', p'))"
      using rm_sequence.prems(2) .
  qed
  then show ?case by (auto simp: list_all_iff)
next
  case (rm_repeat r k)
  from rm_repeat.prems(2) obtain r1 p1 where
    c: "regexp_transform_func (transform_1 n ds) r p = Some (Inr (r1, p1))"
    and t: "transform_1 n ds (rm_repeat r1 k) p1 = Some (Inr (r', p'))"
    by (auto split: option.splits sum.splits)
  have "sequences_nonempty r" using rm_repeat.prems(1) by simp
  from rm_repeat.IH [OF this c] have "plain r1" by simp
  then have "plain r' \<and> (p1 \<longrightarrow> p') \<and> (\<not> p' \<longrightarrow> r' = rm_repeat r1 k)"
    using transform_1_node [of "rm_repeat r1 k" n ds p1 r' p'] t by simp
  moreover have "\<not> plain (rm_repeat r1 k)" by simp
  ultimately show ?case by auto
next
  case (rm_allof rs)
  have "plain r' \<and> (p \<longrightarrow> p')
        \<and> (\<not> p' \<longrightarrow> r' = rm_allof rs \<and> (\<forall>x\<in>set rs. sequences_nonempty x) \<and> True)"
  proof (rule pass_nary [where node = rm_allof and func = "transform_1 n ds" and C = sequences_nonempty
        and D = "\<lambda>out. True"])
    show "rm_allof = rm_sequence \<or> rm_allof = rm_allof \<or> rm_allof = rm_oneof" by simp
  next
    fix x p r' p' assume x: "x \<in> set rs"
      and c: "regexp_transform_func (transform_1 n ds) x p = Some (Inr (r', p'))"
    have "sequences_nonempty x" using rm_allof.prems(1) x by (simp add: list_all_iff)
    from rm_allof.IH [OF x this c]
    show "plain r' \<and> (p \<longrightarrow> p') \<and> (\<not> p' \<longrightarrow> r' = x \<and> sequences_nonempty x)" by simp
  next
    fix out q assume po: "plain (rm_allof out)"
      and t: "transform_1 n ds (rm_allof out) q = Some (Inr (r', p'))"
    show "plain r' \<and> (q \<longrightarrow> p') \<and> (\<not> p' \<longrightarrow> r' = rm_allof out \<and> True)"
      using transform_1_node [of "rm_allof out" n ds q r' p'] po t by simp
  next
    show "rm_allof = rm_sequence \<longrightarrow> rs \<noteq> []" by (simp add: nary_distinct)
  next
    show "regexp_transform_func (transform_1 n ds) (rm_allof rs) p = Some (Inr (r', p'))"
      using rm_allof.prems(2) .
  qed
  then show ?case by (auto simp: list_all_iff)
next
  case (rm_oneof rs)
  have "plain r' \<and> (p \<longrightarrow> p')
        \<and> (\<not> p' \<longrightarrow> r' = rm_oneof rs \<and> (\<forall>x\<in>set rs. sequences_nonempty x) \<and> True)"
  proof (rule pass_nary [where node = rm_oneof and func = "transform_1 n ds" and C = sequences_nonempty
        and D = "\<lambda>out. True"])
    show "rm_oneof = rm_sequence \<or> rm_oneof = rm_allof \<or> rm_oneof = rm_oneof" by simp
  next
    fix x p r' p' assume x: "x \<in> set rs"
      and c: "regexp_transform_func (transform_1 n ds) x p = Some (Inr (r', p'))"
    have "sequences_nonempty x" using rm_oneof.prems(1) x by (simp add: list_all_iff)
    from rm_oneof.IH [OF x this c]
    show "plain r' \<and> (p \<longrightarrow> p') \<and> (\<not> p' \<longrightarrow> r' = x \<and> sequences_nonempty x)" by simp
  next
    fix out q assume po: "plain (rm_oneof out)"
      and t: "transform_1 n ds (rm_oneof out) q = Some (Inr (r', p'))"
    show "plain r' \<and> (q \<longrightarrow> p') \<and> (\<not> p' \<longrightarrow> r' = rm_oneof out \<and> True)"
      using transform_1_node [of "rm_oneof out" n ds q r' p'] po t by simp
  next
    show "rm_oneof = rm_sequence \<longrightarrow> rs \<noteq> []" by (simp add: nary_distinct)
  next
    show "regexp_transform_func (transform_1 n ds) (rm_oneof rs) p = Some (Inr (r', p'))"
      using rm_oneof.prems(2) .
  qed
  then show ?case by (auto simp: list_all_iff)
qed

lemma pass_2:
  "plain r \<Longrightarrow>
   regexp_transform_func (transform_2 n ds) r p = Some (Inr (r', p')) \<Longrightarrow>
   plain r' \<and> (p \<longrightarrow> p') \<and> (\<not> p' \<longrightarrow> r' = r \<and> flat r)"
proof (induction r arbitrary: p r' p')
  case (rm_unit u)
  then show ?case using transform_2_node [of "rm_unit u" n ds p r' p'] by simp
next
  case (rm_reserv k)
  then show ?case by simp
next
  case rm_nothing
  then show ?case using transform_2_node [of rm_nothing n ds p r' p'] by simp
next
  case (rm_sequence rs)
  have "plain r' \<and> (p \<longrightarrow> p')
        \<and> (\<not> p' \<longrightarrow> r' = rm_sequence rs \<and> (\<forall>x\<in>set rs. flat x) \<and> \<not> list_ex is_sequence rs)"
  proof (rule pass_nary [where node = rm_sequence and func = "transform_2 n ds" and C = flat
        and D = "\<lambda>out. \<not> list_ex is_sequence out"])
    show "rm_sequence = rm_sequence \<or> rm_sequence = rm_allof \<or> rm_sequence = rm_oneof" by simp
  next
    fix x p r' p' assume x: "x \<in> set rs"
      and c: "regexp_transform_func (transform_2 n ds) x p = Some (Inr (r', p'))"
    have "plain x" using rm_sequence.prems(1) x by (simp add: list_all_iff)
    from rm_sequence.IH [OF x this c]
    show "plain r' \<and> (p \<longrightarrow> p') \<and> (\<not> p' \<longrightarrow> r' = x \<and> flat x)" by simp
  next
    fix out q assume po: "plain (rm_sequence out)"
      and t: "transform_2 n ds (rm_sequence out) q = Some (Inr (r', p'))"
    show "plain r' \<and> (q \<longrightarrow> p') \<and> (\<not> p' \<longrightarrow> r' = rm_sequence out \<and> \<not> list_ex is_sequence out)"
      using transform_2_node [of "rm_sequence out" n ds q r' p'] po t by simp
  next
    show "rm_sequence = rm_sequence \<longrightarrow> rs \<noteq> []" using rm_sequence.prems(1) by simp
  next
    show "regexp_transform_func (transform_2 n ds) (rm_sequence rs) p = Some (Inr (r', p'))"
      using rm_sequence.prems(2) .
  qed
  then show ?case by (auto simp: list_all_iff)
next
  case (rm_repeat r k)
  then show ?case by simp
next
  case (rm_allof rs)
  have "plain r' \<and> (p \<longrightarrow> p')
        \<and> (\<not> p' \<longrightarrow> r' = rm_allof rs \<and> (\<forall>x\<in>set rs. flat x) \<and> \<not> list_ex is_allof rs)"
  proof (rule pass_nary [where node = rm_allof and func = "transform_2 n ds" and C = flat
        and D = "\<lambda>out. \<not> list_ex is_allof out"])
    show "rm_allof = rm_sequence \<or> rm_allof = rm_allof \<or> rm_allof = rm_oneof" by simp
  next
    fix x p r' p' assume x: "x \<in> set rs"
      and c: "regexp_transform_func (transform_2 n ds) x p = Some (Inr (r', p'))"
    have "plain x" using rm_allof.prems(1) x by (simp add: list_all_iff)
    from rm_allof.IH [OF x this c]
    show "plain r' \<and> (p \<longrightarrow> p') \<and> (\<not> p' \<longrightarrow> r' = x \<and> flat x)" by simp
  next
    fix out q assume po: "plain (rm_allof out)"
      and t: "transform_2 n ds (rm_allof out) q = Some (Inr (r', p'))"
    show "plain r' \<and> (q \<longrightarrow> p') \<and> (\<not> p' \<longrightarrow> r' = rm_allof out \<and> \<not> list_ex is_allof out)"
      using transform_2_node [of "rm_allof out" n ds q r' p'] po t by simp
  next
    show "rm_allof = rm_sequence \<longrightarrow> rs \<noteq> []" by (simp add: nary_distinct)
  next
    show "regexp_transform_func (transform_2 n ds) (rm_allof rs) p = Some (Inr (r', p'))"
      using rm_allof.prems(2) .
  qed
  then show ?case by (auto simp: list_all_iff)
next
  case (rm_oneof rs)
  have "plain r' \<and> (p \<longrightarrow> p')
        \<and> (\<not> p' \<longrightarrow> r' = rm_oneof rs \<and> (\<forall>x\<in>set rs. flat x) \<and> \<not> list_ex is_oneof rs)"
  proof (rule pass_nary [where node = rm_oneof and func = "transform_2 n ds" and C = flat
        and D = "\<lambda>out. \<not> list_ex is_oneof out"])
    show "rm_oneof = rm_sequence \<or> rm_oneof = rm_allof \<or> rm_oneof = rm_oneof" by simp
  next
    fix x p r' p' assume x: "x \<in> set rs"
      and c: "regexp_transform_func (transform_2 n ds) x p = Some (Inr (r', p'))"
    have "plain x" using rm_oneof.prems(1) x by (simp add: list_all_iff)
    from rm_oneof.IH [OF x this c]
    show "plain r' \<and> (p \<longrightarrow> p') \<and> (\<not> p' \<longrightarrow> r' = x \<and> flat x)" by simp
  next
    fix out q assume po: "plain (rm_oneof out)"
      and t: "transform_2 n ds (rm_oneof out) q = Some (Inr (r', p'))"
    show "plain r' \<and> (q \<longrightarrow> p') \<and> (\<not> p' \<longrightarrow> r' = rm_oneof out \<and> \<not> list_ex is_oneof out)"
      using transform_2_node [of "rm_oneof out" n ds q r' p'] po t by simp
  next
    show "rm_oneof = rm_sequence \<longrightarrow> rs \<noteq> []" by (simp add: nary_distinct)
  next
    show "regexp_transform_func (transform_2 n ds) (rm_oneof rs) p = Some (Inr (r', p'))"
      using rm_oneof.prems(2) .
  qed
  then show ?case by (auto simp: list_all_iff)
qed

lemma pass_3:
  "plain r \<Longrightarrow>
   regexp_transform_func (transform_3 n ds) r p = Some (Inr (r', p')) \<Longrightarrow>
   plain r' \<and> (p \<longrightarrow> p') \<and> (\<not> p' \<longrightarrow> r' = r \<and> distributed r)"
proof (induction r arbitrary: p r' p')
  case (rm_unit u)
  then show ?case using transform_3_node [of "rm_unit u" n ds p r' p'] by simp
next
  case (rm_reserv k)
  then show ?case by simp
next
  case rm_nothing
  then show ?case using transform_3_node [of rm_nothing n ds p r' p'] by simp
next
  case (rm_sequence rs)
  have "plain r' \<and> (p \<longrightarrow> p')
        \<and> (\<not> p' \<longrightarrow> r' = rm_sequence rs \<and> (\<forall>x\<in>set rs. distributed x) \<and> \<not> list_ex is_oneof rs)"
  proof (rule pass_nary [where node = rm_sequence and func = "transform_3 n ds" and C = distributed
        and D = "\<lambda>out. \<not> list_ex is_oneof out"])
    show "rm_sequence = rm_sequence \<or> rm_sequence = rm_allof \<or> rm_sequence = rm_oneof" by simp
  next
    fix x p r' p' assume x: "x \<in> set rs"
      and c: "regexp_transform_func (transform_3 n ds) x p = Some (Inr (r', p'))"
    have "plain x" using rm_sequence.prems(1) x by (simp add: list_all_iff)
    from rm_sequence.IH [OF x this c]
    show "plain r' \<and> (p \<longrightarrow> p') \<and> (\<not> p' \<longrightarrow> r' = x \<and> distributed x)" by simp
  next
    fix out q assume po: "plain (rm_sequence out)"
      and t: "transform_3 n ds (rm_sequence out) q = Some (Inr (r', p'))"
    show "plain r' \<and> (q \<longrightarrow> p') \<and> (\<not> p' \<longrightarrow> r' = rm_sequence out \<and> \<not> list_ex is_oneof out)"
      using transform_3_node [of "rm_sequence out" n ds q r' p'] po t by simp
  next
    show "rm_sequence = rm_sequence \<longrightarrow> rs \<noteq> []" using rm_sequence.prems(1) by simp
  next
    show "regexp_transform_func (transform_3 n ds) (rm_sequence rs) p = Some (Inr (r', p'))"
      using rm_sequence.prems(2) .
  qed
  then show ?case by (auto simp: list_all_iff)
next
  case (rm_repeat r k)
  then show ?case by simp
next
  case (rm_allof rs)
  have "plain r' \<and> (p \<longrightarrow> p')
        \<and> (\<not> p' \<longrightarrow> r' = rm_allof rs \<and> (\<forall>x\<in>set rs. distributed x) \<and> (\<not> list_ex is_oneof rs \<and> max_seq_length_loop rs 0 = 0))"
  proof (rule pass_nary [where node = rm_allof and func = "transform_3 n ds" and C = distributed
        and D = "\<lambda>out. (\<not> list_ex is_oneof out \<and> max_seq_length_loop out 0 = 0)"])
    show "rm_allof = rm_sequence \<or> rm_allof = rm_allof \<or> rm_allof = rm_oneof" by simp
  next
    fix x p r' p' assume x: "x \<in> set rs"
      and c: "regexp_transform_func (transform_3 n ds) x p = Some (Inr (r', p'))"
    have "plain x" using rm_allof.prems(1) x by (simp add: list_all_iff)
    from rm_allof.IH [OF x this c]
    show "plain r' \<and> (p \<longrightarrow> p') \<and> (\<not> p' \<longrightarrow> r' = x \<and> distributed x)" by simp
  next
    fix out q assume po: "plain (rm_allof out)"
      and t: "transform_3 n ds (rm_allof out) q = Some (Inr (r', p'))"
    show "plain r' \<and> (q \<longrightarrow> p') \<and> (\<not> p' \<longrightarrow> r' = rm_allof out \<and> (\<not> list_ex is_oneof out \<and> max_seq_length_loop out 0 = 0))"
      using transform_3_node [of "rm_allof out" n ds q r' p'] po t by simp
  next
    show "rm_allof = rm_sequence \<longrightarrow> rs \<noteq> []" by (simp add: nary_distinct)
  next
    show "regexp_transform_func (transform_3 n ds) (rm_allof rs) p = Some (Inr (r', p'))"
      using rm_allof.prems(2) .
  qed
  then show ?case by (auto simp: list_all_iff)
next
  case (rm_oneof rs)
  have "plain r' \<and> (p \<longrightarrow> p')
        \<and> (\<not> p' \<longrightarrow> r' = rm_oneof rs \<and> (\<forall>x\<in>set rs. distributed x) \<and> True)"
  proof (rule pass_nary [where node = rm_oneof and func = "transform_3 n ds" and C = distributed
        and D = "\<lambda>out. True"])
    show "rm_oneof = rm_sequence \<or> rm_oneof = rm_allof \<or> rm_oneof = rm_oneof" by simp
  next
    fix x p r' p' assume x: "x \<in> set rs"
      and c: "regexp_transform_func (transform_3 n ds) x p = Some (Inr (r', p'))"
    have "plain x" using rm_oneof.prems(1) x by (simp add: list_all_iff)
    from rm_oneof.IH [OF x this c]
    show "plain r' \<and> (p \<longrightarrow> p') \<and> (\<not> p' \<longrightarrow> r' = x \<and> distributed x)" by simp
  next
    fix out q assume po: "plain (rm_oneof out)"
      and t: "transform_3 n ds (rm_oneof out) q = Some (Inr (r', p'))"
    show "plain r' \<and> (q \<longrightarrow> p') \<and> (\<not> p' \<longrightarrow> r' = rm_oneof out \<and> True)"
      using transform_3_node [of "rm_oneof out" n ds q r' p'] po t by simp
  next
    show "rm_oneof = rm_sequence \<longrightarrow> rs \<noteq> []" by (simp add: nary_distinct)
  next
    show "regexp_transform_func (transform_3 n ds) (rm_oneof rs) p = Some (Inr (r', p'))"
      using rm_oneof.prems(2) .
  qed
  then show ?case by (auto simp: list_all_iff)
qed

end
